theory Spec2Isabelle
  imports Complex_Main "HOL-Library.Product_Lexorder"
begin


section \<open>Common definitions (common.h)\<close>

text \<open>
  A J is a 32-bit unsigned index. It is modelled as a natural number; where the source
  increments a 32-bit counter the reduction modulo \<open>2 ^ 32\<close> is written out.
  \<open>kInvalidJ\<close> is \<open>static_cast<uint32>(-1)\<close>.
\<close>

definition kInvalidJ :: nat where
  "kInvalidJ = 2 ^ 32 - 1"

text \<open>
  A failed \<open>CHECK\<close> aborts the process; an index outside a vector is undefined behaviour
  in the source. Both are results of their own in the model.
\<close>

datatype error = CheckFailed | OutOfBounds

text \<open>
  \<open>Range(const uint32 to)\<close> of range.h, as the list a range-based \<open>for\<close> walks. The
  callers pass a vector's \<open>size()\<close>, which the parameter truncates to 32 bits.
\<close>

definition Range_u32 :: "nat \<Rightarrow> nat list" where
  "Range_u32 to = [0 ..< to mod 2 ^ 32]"

text \<open>
  \<open>Double\<close> is an IEEE double. Arithmetic is modelled over the reals (no rounding, no
  NaN). The constant \<open>kInfinity\<close> is kept apart where the source assigns or tests it:
  a loss or a score is then either finite or \<open>Infinity\<close>.
\<close>

datatype Double_inf = Finite real | Infinity

text \<open>\<open>x > y\<close> for a finite \<open>x\<close> against a value that may be \<open>kInfinity\<close>.\<close>

fun gt_inf :: "real \<Rightarrow> Double_inf \<Rightarrow> bool" where
  "gt_inf x (Finite y) = (x > y)"
| "gt_inf x Infinity = False"

text \<open>\<open>std::numeric_limits<double>::epsilon()\<close>.\<close>

definition kEpsilon :: real where
  "kEpsilon = 1 / 2 ^ 52"

text \<open>\<open>Sign(x)\<close>: \<open>(x > 0) - (x < 0)\<close>.\<close>

definition Sign :: "real \<Rightarrow> real" where
  "Sign x = (if x > 0 then 1 else 0) - (if x < 0 then 1 else 0)"

section \<open>JRenumbering (j\_renumbering.h)\<close>

record JRenumbering =
  j_to_new_j :: "nat list"
  next_j :: nat

text \<open>\<open>SetInvalid\<close>: \<open>CHECK_LT(j, j_to_new_j_.size()); j_to_new_j_[j] = kInvalidJ\<close>.\<close>

definition SetInvalid :: "JRenumbering \<Rightarrow> nat \<Rightarrow> error + JRenumbering" where
  "SetInvalid r j =
     (if j < length (j_to_new_j r)
      then Inr (r\<lparr>j_to_new_j := (j_to_new_j r)[j := kInvalidJ]\<rparr>)
      else Inl CheckFailed)"

text \<open>
  \<open>FillJToNewJ\<close>: the loop over the entries of \<open>j_to_new_j_\<close>, by reference. Every entry
  must be 0 or \<open>kInvalidJ\<close>; an entry 0 receives \<open>next_j_\<close>, which is then incremented
  (a 32-bit increment).
\<close>

fun FillJToNewJ_loop :: "nat list \<Rightarrow> nat \<Rightarrow> error + (nat list \<times> nat)" where
  "FillJToNewJ_loop [] nxt = Inr ([], nxt)"
| "FillJToNewJ_loop (new_j # rest) nxt =
     (if \<not> (new_j = 0 \<or> new_j = kInvalidJ) then Inl CheckFailed
      else if new_j = 0 then
        (case FillJToNewJ_loop rest ((nxt + 1) mod 2 ^ 32) of
           Inl e \<Rightarrow> Inl e
         | Inr (rest', nxt') \<Rightarrow> Inr (nxt # rest', nxt'))
      else
        (case FillJToNewJ_loop rest nxt of
           Inl e \<Rightarrow> Inl e
         | Inr (rest', nxt') \<Rightarrow> Inr (new_j # rest', nxt')))"

definition FillJToNewJ :: "JRenumbering \<Rightarrow> error + JRenumbering" where
  "FillJToNewJ r =
     (case FillJToNewJ_loop (j_to_new_j r) (next_j r) of
        Inl e \<Rightarrow> Inl e
      | Inr (js, nxt) \<Rightarrow> Inr \<lparr>j_to_new_j = js, next_j = nxt\<rparr>)"

text \<open>
  \<open>RemoveJs\<close>, the named constructor. \<open>Range(js_to_remove.size())\<close> takes a \<open>uint32\<close>,
  so the size is truncated to 32 bits there, while the vector itself has the full size.
\<close>

definition RemoveJs_step :: "bool list \<Rightarrow> nat \<Rightarrow> error + JRenumbering \<Rightarrow> error + JRenumbering" where
  "RemoveJs_step js_to_remove j acc =
     (case acc of
        Inl e \<Rightarrow> Inl e
      | Inr r \<Rightarrow> if js_to_remove ! j then SetInvalid r j else Inr r)"

definition RemoveJs :: "bool list \<Rightarrow> error + JRenumbering" where
  "RemoveJs js_to_remove =
     (case fold (RemoveJs_step js_to_remove) (Range_u32 (length js_to_remove))
             (Inr \<lparr>j_to_new_j = replicate (length js_to_remove) 0, next_j = 0\<rparr>) of
        Inl e \<Rightarrow> Inl e
      | Inr r \<Rightarrow> FillJToNewJ r)"

text \<open>\<open>IsNoOp\<close>: every J is mapped to itself.\<close>

definition IsNoOp :: "JRenumbering \<Rightarrow> bool" where
  "IsNoOp r = list_all (\<lambda>j. j_to_new_j r ! j = j) (Range_u32 (length (j_to_new_j r)))"

text \<open>
  The closed form of the renumbering: a removed entry becomes \<open>kInvalidJ\<close>, a survivor
  the number of survivors before it, counted from \<open>k\<close>.
\<close>

fun renum :: "bool list \<Rightarrow> nat \<Rightarrow> nat list" where
  "renum [] k = []"
| "renum (b # bs) k = (if b then kInvalidJ # renum bs k else k # renum bs (Suc k))"


section \<open>Data statistics (data.h)\<close>

text \<open>
  A private member \<open>name_\<close> of a class is the field \<open>name\<close> of its record (a name
  cannot end in an underscore here); the vectors \<open>positive_\<close>, \<open>negative_\<close> and \<open>hash_\<close>
  of \<open>Stats\<close> are \<open>positive_of_j\<close>, \<open>negative_of_j\<close> and \<open>hash_of_j\<close>, and the members
  \<open>a_\<close> and \<open>b_\<close> of \<open>Dim1Majorizer\<close> are \<open>d1m_a\<close> and \<open>d1m_b\<close>.

  \<open>Stats\<close>: per-J counts of the rows that contain J, split by label, and the XOR of
  the row ids' hashes. The counters are 64-bit.
\<close>

record Stats =
  positive_row_count :: nat
  negative_row_count :: nat
  positive_of_j :: "nat list"
  negative_of_j :: "nat list"
  hash_of_j :: "nat list"

text \<open>\<open>Negative(j)\<close> and \<open>Positive(j)\<close>: \<open>CHECK_LT(j, size)\<close>, then the entry.\<close>

definition Negative :: "Stats \<Rightarrow> nat \<Rightarrow> error + nat" where
  "Negative s j = (if j < length (negative_of_j s) then Inr (negative_of_j s ! j) else Inl CheckFailed)"

definition Positive :: "Stats \<Rightarrow> nat \<Rightarrow> error + nat" where
  "Positive s j = (if j < length (positive_of_j s) then Inr (positive_of_j s ! j) else Inl CheckFailed)"

text \<open>\<open>GetRowCountWithJPresent(j)\<close>: \<open>Negative(j) + Positive(j)\<close>, a 64-bit sum.\<close>

definition GetRowCountWithJPresent :: "Stats \<Rightarrow> nat \<Rightarrow> error + nat" where
  "GetRowCountWithJPresent s j =
     (case Negative s j of
        Inl e \<Rightarrow> Inl e
      | Inr neg \<Rightarrow>
          (case Positive s j of
             Inl e \<Rightarrow> Inl e
           | Inr pos \<Rightarrow> Inr ((neg + pos) mod 2 ^ 64)))"

section \<open>Model (model.h)\<close>

record Model =
  precision :: "real list"
  w :: "real list"
  delta_w :: "real list"
  loss_derivative :: "real list"
  creation_time :: "nat list"
  current_creation_time :: nat
  prev_total_loss :: Double_inf
  total_loss :: Double_inf
  synced_with_weights :: bool
  iteration_no :: nat

text \<open>\<open>GetSize()\<close> returns \<open>w.size()\<close> as a \<open>uint32\<close>.\<close>

definition GetSize :: "Model \<Rightarrow> nat" where
  "GetSize m = length (w m) mod 2 ^ 32"

text \<open>\<open>IsFeatureNew(j)\<close>: \<open>creation_time[j] == current_creation_time\<close>.\<close>

definition IsFeatureNew :: "Model \<Rightarrow> nat \<Rightarrow> error + bool" where
  "IsFeatureNew m j =
     (if j < length (creation_time m)
      then Inr (creation_time m ! j = current_creation_time m)
      else Inl OutOfBounds)"

section \<open>Regularizations (optimizers.h)\<close>

text \<open>
  One \<open>config::Set::Regularization\<close> message; a field that was never set reads as 0.
\<close>

record Regularization =
  l1 :: real
  l2 :: real
  l1_at_weight_zero :: real

record Regularizations =
  regularization :: Regularization
  regularization_div_sqrt_n :: Regularization
  regularization_mul_sqrt_n :: Regularization
  regularization_confidence :: Regularization

text \<open>
  \<open>L1(rows_with_j, weight, majorizer_a)\<close>. \<open>rows_with_j + 1\<close> is a 64-bit sum that is
  then converted to a double.
\<close>

definition L1 :: "Regularizations \<Rightarrow> nat \<Rightarrow> real \<Rightarrow> real \<Rightarrow> real" where
  "L1 regs rows_with_j weight majorizer_a =
     (let ret_l1 = l1 (regularization regs);
          sqrt_of_rows_with_j = sqrt (real ((rows_with_j + 1) mod 2 ^ 64));
          sqrt_of_majorizer_a_plus_epsilon = sqrt majorizer_a + kEpsilon;
          ret_l1 = ret_l1 + l1 (regularization_div_sqrt_n regs) / sqrt_of_rows_with_j;
          ret_l1 = ret_l1 + l1 (regularization_mul_sqrt_n regs) * sqrt_of_rows_with_j;
          ret_l1 = ret_l1 + l1 (regularization_confidence regs) / sqrt_of_majorizer_a_plus_epsilon
      in if weight = 0
         then ret_l1 + l1_at_weight_zero (regularization regs)
                + l1_at_weight_zero (regularization_div_sqrt_n regs) / sqrt_of_rows_with_j
                + l1_at_weight_zero (regularization_mul_sqrt_n regs) * sqrt_of_rows_with_j
                + l1_at_weight_zero (regularization_confidence regs) / sqrt_of_majorizer_a_plus_epsilon
         else ret_l1)"

definition L2 :: "Regularizations \<Rightarrow> nat \<Rightarrow> real \<Rightarrow> real" where
  "L2 regs rows_with_j majorizer_a =
     (let ret_l2 = l2 (regularization regs);
          sqrt_of_rows_with_j = sqrt (real ((rows_with_j + 1) mod 2 ^ 64));
          ret_l2 = ret_l2 + l2 (regularization_div_sqrt_n regs) / sqrt_of_rows_with_j;
          ret_l2 = ret_l2 + l2 (regularization_mul_sqrt_n regs) * sqrt_of_rows_with_j
      in ret_l2 + l2 (regularization_confidence regs) / (sqrt majorizer_a + kEpsilon))"

definition IsNonStandard :: "Regularizations \<Rightarrow> bool" where
  "IsNonStandard regs =
     (l1_at_weight_zero (regularization regs) \<noteq> 0 \<or>
      l1 (regularization_div_sqrt_n regs) \<noteq> 0 \<or>
      l2 (regularization_div_sqrt_n regs) \<noteq> 0 \<or>
      l1_at_weight_zero (regularization_div_sqrt_n regs) \<noteq> 0 \<or>
      l1 (regularization_mul_sqrt_n regs) \<noteq> 0 \<or>
      l2 (regularization_mul_sqrt_n regs) \<noteq> 0 \<or>
      l1_at_weight_zero (regularization_mul_sqrt_n regs) \<noteq> 0 \<or>
      l1 (regularization_confidence regs) \<noteq> 0 \<or>
      l2 (regularization_confidence regs) \<noteq> 0 \<or>
      l1_at_weight_zero (regularization_confidence regs) \<noteq> 0)"

section \<open>Dim1Majorizer and Majorizer (optimizers.h)\<close>

record Dim1Majorizer =
  d1m_a :: real
  d1m_b :: real

text \<open>
  \<open>GetMinimum\<close>. The \<open>DCHECK_EQ(bj, 0.0)\<close> of the branch \<open>aj == 0.0\<close> is a debug
  assertion and is compiled out of a release build; the branch returns 0.
\<close>

definition GetMinimum :: "Regularizations \<Rightarrow> Dim1Majorizer \<Rightarrow> real \<Rightarrow> real \<Rightarrow> real \<Rightarrow> nat \<Rightarrow> real" where
  "GetMinimum regularizations d w0 inertia step_multiplier rows_with_j =
     (let aj = d1m_a d + L2 regularizations rows_with_j (d1m_a d) * 4;
          bj = d1m_a d * w0 - step_multiplier * d1m_b d + inertia * aj;
          bj = (if bj > 0
                then max 0 (bj - L1 regularizations rows_with_j w0 (d1m_a d) * 2)
                else min 0 (bj + L1 regularizations rows_with_j w0 (d1m_a d) * 2))
      in if aj = 0 then 0 else bj / aj)"

definition GetPrecision :: "Regularizations \<Rightarrow> Dim1Majorizer \<Rightarrow> nat \<Rightarrow> real \<Rightarrow> real" where
  "GetPrecision regularizations d rows_with_j weight =
     d1m_a d / 2 + L2 regularizations rows_with_j (d1m_a d) * 2"

record Majorizer =
  of_j :: "Dim1Majorizer list"
  log_loss :: real
  cpu_operation_count_flat_materialization :: nat

text \<open>
  \<open>GetRegularizationLoss\<close>: the loop over \<open>Range(model.w.size())\<close>. The statistics are
  those of the shard set that is passed (\<open>shard.GetStats()\<close>).
\<close>

definition GetRegularizationLoss_step ::
  "Regularizations \<Rightarrow> Majorizer \<Rightarrow> Model \<Rightarrow> Stats \<Rightarrow> nat \<Rightarrow> error + real \<Rightarrow> error + real" where
  "GetRegularizationLoss_step regularizations maj model stats j acc =
     (case acc of
        Inl e \<Rightarrow> Inl e
      | Inr loss \<Rightarrow>
          if \<not> j < length (w model) then Inl OutOfBounds
          else
            (case GetRowCountWithJPresent stats j of
               Inl e \<Rightarrow> Inl e
             | Inr rows_with_j \<Rightarrow>
                 if \<not> j < length (of_j maj) then Inl OutOfBounds
                 else
                   (let wj = w model ! j;
                        loss = loss + L1 regularizations rows_with_j wj (d1m_a (of_j maj ! j)) * \<bar>wj\<bar>;
                        loss = loss + L2 regularizations rows_with_j (d1m_a (of_j maj ! j)) * wj * wj
                    in Inr loss)))"

definition GetRegularizationLoss :: "Majorizer \<Rightarrow> Regularizations \<Rightarrow> Model \<Rightarrow> Stats \<Rightarrow> error + real" where
  "GetRegularizationLoss maj regularizations model stats =
     fold (GetRegularizationLoss_step regularizations maj model stats)
          (Range_u32 (length (w model))) (Inr 0)"

text \<open>The fields of \<open>logs::GradBoostUpdateMinimum\<close> that \<open>UpdateMinimum\<close> sets.\<close>

record UpdateMinimum_log =
  undo_iteration :: bool
  restart_iteration :: bool
  dot_loss_derivative_vs_delta_weight :: "real option"
  cos_angle_loss_derivative_vs_delta_weight :: "real option"

definition empty_log :: UpdateMinimum_log where
  "empty_log = \<lparr>undo_iteration = False, restart_iteration = False,
                 dot_loss_derivative_vs_delta_weight = None,
                 cos_angle_loss_derivative_vs_delta_weight = None\<rparr>"

text \<open>
  The undo loop of \<open>UpdateMinimum\<close>: \<open>w[j] -= delta_w[j]; delta_w[j] = 0\<close>. The restart
  loop after the coordinate update has the same body (\<open>w0 = w[j] - delta_w[j]; w[j] = w0;
  delta_w[j] = 0\<close>).
\<close>

definition revert_step :: "nat \<Rightarrow> error + Model \<Rightarrow> error + Model" where
  "revert_step j acc =
     (case acc of
        Inl e \<Rightarrow> Inl e
      | Inr model \<Rightarrow>
          if \<not> (j < length (w model) \<and> j < length (delta_w model)) then Inl OutOfBounds
          else Inr (model\<lparr>w := (w model)[j := w model ! j - delta_w model ! j],
                          delta_w := (delta_w model)[j := 0]\<rparr>))"

text \<open>
  The coordinate loop of \<open>UpdateMinimum\<close>. The state carries the model and the three
  running sums. \<open>new_w_without_inertia\<close> is computed by the source and never used.
\<close>

definition UpdateMinimum_step ::
  "Regularizations \<Rightarrow> Majorizer \<Rightarrow> real \<Rightarrow> real \<Rightarrow> Stats \<Rightarrow> nat
     \<Rightarrow> error + (Model \<times> real \<times> real \<times> real) \<Rightarrow> error + (Model \<times> real \<times> real \<times> real)" where
  "UpdateMinimum_step regularizations maj inertia_factor step_multiplier stats j acc =
     (case acc of
        Inl e \<Rightarrow> Inl e
      | Inr (model, dot, lld_squared, delta_w_squared) \<Rightarrow>
          (case GetRowCountWithJPresent stats j of
             Inl e \<Rightarrow> Inl e
           | Inr rows_with_j \<Rightarrow>
               if \<not> (j < length (of_j maj) \<and> j < length (w model) \<and> j < length (delta_w model)
                      \<and> j < length (precision model) \<and> j < length (loss_derivative model))
               then Inl OutOfBounds
               else
                 (let new_w = GetMinimum regularizations (of_j maj ! j) (w model ! j)
                                (inertia_factor * delta_w model ! j) step_multiplier rows_with_j;
                      model = model\<lparr>precision := (precision model)
                                 [j := GetPrecision regularizations (of_j maj ! j) rows_with_j (w model ! j)]\<rparr>;
                      model = model\<lparr>delta_w := (delta_w model)[j := new_w - w model ! j]\<rparr>;
                      model = model\<lparr>w := (w model)[j := new_w]\<rparr>;
                      dot = dot + loss_derivative model ! j * delta_w model ! j;
                      lld_squared = lld_squared + loss_derivative model ! j * loss_derivative model ! j;
                      delta_w_squared = delta_w_squared + delta_w model ! j * delta_w model ! j
                  in Inr (model, dot, lld_squared, delta_w_squared))))"

definition UpdateMinimum_loop ::
  "Regularizations \<Rightarrow> Majorizer \<Rightarrow> real \<Rightarrow> real \<Rightarrow> Stats \<Rightarrow> Model
     \<Rightarrow> error + (Model \<times> real \<times> real \<times> real)" where
  "UpdateMinimum_loop regularizations maj inertia_factor step_multiplier stats model =
     fold (UpdateMinimum_step regularizations maj inertia_factor step_multiplier stats)
          (Range_u32 (length (of_j maj))) (Inr (model, 0, 0, 0))"

text \<open>
  \<open>Majorizer::UpdateMinimum\<close>. The result is the updated model and the log line that is
  handed to the logger.
\<close>

definition UpdateMinimum ::
  "Majorizer \<Rightarrow> Regularizations \<Rightarrow> real \<Rightarrow> real \<Rightarrow> Stats \<Rightarrow> bool \<Rightarrow> Model
     \<Rightarrow> error + (Model \<times> UpdateMinimum_log)" where
  "UpdateMinimum maj regularizations inertia_factor step_multiplier stats allow_undo model0 =
     (if length (of_j maj) \<noteq> GetSize model0 then Inl CheckFailed
      else if \<not> synced_with_weights model0 then Inl CheckFailed
      else
        (let model = model0\<lparr>synced_with_weights := False,
                             iteration_no := (iteration_no model0 + 1) mod 2 ^ 32\<rparr>
         in case GetRegularizationLoss maj regularizations model stats of
              Inl e \<Rightarrow> Inl e
            | Inr reg_loss \<Rightarrow>
                (let total = log_loss maj + reg_loss
                 in if allow_undo \<and> gt_inf total (prev_total_loss model)
                    then
                      (case fold revert_step (Range_u32 (length (of_j maj)))
                              (Inr (model\<lparr>prev_total_loss := Infinity\<rparr>)) of
                         Inl e \<Rightarrow> Inl e
                       | Inr model' \<Rightarrow> Inr (model', empty_log\<lparr>undo_iteration := True\<rparr>))
                    else
                      (case UpdateMinimum_loop regularizations maj inertia_factor
                              step_multiplier stats model of
                         Inl e \<Rightarrow> Inl e
                       | Inr (model, dot, lld_squared, delta_w_squared) \<Rightarrow>
                           (let log = empty_log\<lparr>dot_loss_derivative_vs_delta_weight := Some dot\<rparr>;
                                denominator = sqrt (lld_squared * delta_w_squared);
                                log = (if denominator \<noteq> 0
                                       then log\<lparr>cos_angle_loss_derivative_vs_delta_weight :=
                                                   Some (dot / denominator)\<rparr>
                                       else log)
                            in if dot > 0
                               then
                                 (case fold revert_step (Range_u32 (length (of_j maj))) (Inr model) of
                                    Inl e \<Rightarrow> Inl e
                                  | Inr model' \<Rightarrow> Inr (model', log\<lparr>restart_iteration := True\<rparr>))
                               else Inr (model, log))))))"

text \<open>
  The soft threshold of the specification, \<open>sign(B) * max(0, |B| - t)\<close>, against which
  the branches of \<open>GetMinimum\<close> are compared.
\<close>

definition spec_soft_threshold :: "real \<Rightarrow> real \<Rightarrow> real" where
  "spec_soft_threshold B t = sgn B * max 0 (\<bar>B\<bar> - t)"

text \<open>A regularization message that passed the configuration check: no negative field.\<close>

definition nonneg_regularization :: "Regularization \<Rightarrow> bool" where
  "nonneg_regularization r = (0 \<le> l1 r \<and> 0 \<le> l2 r \<and> 0 \<le> l1_at_weight_zero r)"

definition nonneg_regularizations :: "Regularizations \<Rightarrow> bool" where
  "nonneg_regularizations regs =
     (nonneg_regularization (regularization regs) \<and>
      nonneg_regularization (regularization_div_sqrt_n regs) \<and>
      nonneg_regularization (regularization_mul_sqrt_n regs) \<and>
      nonneg_regularization (regularization_confidence regs))"

text \<open>The value the coordinate loop stores at J, from the values before the pass.\<close>

definition coordinate_new_w ::
  "Regularizations \<Rightarrow> Majorizer \<Rightarrow> real \<Rightarrow> real \<Rightarrow> Stats \<Rightarrow> Model \<Rightarrow> nat \<Rightarrow> real" where
  "coordinate_new_w regs maj inertia_factor step_multiplier stats model j =
     GetMinimum regs (of_j maj ! j) (w model ! j) (inertia_factor * delta_w model ! j) step_multiplier
       ((negative_of_j stats ! j + positive_of_j stats ! j) mod 2 ^ 64)"

text \<open>A one-feature training state, on which the theorems below are instantiated.\<close>

definition ex_regs :: Regularizations where
  "ex_regs = \<lparr>regularization = \<lparr>l1 = 1/4, l2 = 1/2, l1_at_weight_zero = 0\<rparr>,
              regularization_div_sqrt_n = \<lparr>l1 = 0, l2 = 0, l1_at_weight_zero = 0\<rparr>,
              regularization_mul_sqrt_n = \<lparr>l1 = 0, l2 = 0, l1_at_weight_zero = 0\<rparr>,
              regularization_confidence = \<lparr>l1 = 0, l2 = 0, l1_at_weight_zero = 0\<rparr>\<rparr>"

definition ex_maj :: Majorizer where
  "ex_maj = \<lparr>of_j = [\<lparr>d1m_a = 2, d1m_b = 1\<rparr>], log_loss = 1,
             cpu_operation_count_flat_materialization = 0\<rparr>"

definition ex_stats :: Stats where
  "ex_stats = \<lparr>positive_row_count = 3, negative_row_count = 1,
               positive_of_j = [3], negative_of_j = [0], hash_of_j = [0]\<rparr>"

definition ex_model :: Model where
  "ex_model = \<lparr>precision = [0], w = [1], delta_w = [1/2], loss_derivative = [0],
               creation_time = [0], current_creation_time = 0,
               prev_total_loss = Finite 0, total_loss = Finite 1,
               synced_with_weights = True, iteration_no = 0\<rparr>"

text \<open>
  The coordinate update in the words of the specification, for the J \<open>j\<close>: \<open>L1_j\<close> and
  \<open>L2_j\<close> are the effective coefficients, \<open>w0\<close> and the previous delta are read from the
  model before the pass.
\<close>

definition spec_coordinate_w ::
  "Regularizations \<Rightarrow> Majorizer \<Rightarrow> real \<Rightarrow> real \<Rightarrow> Stats \<Rightarrow> Model \<Rightarrow> nat \<Rightarrow> real" where
  "spec_coordinate_w regs maj inertia_factor step_multiplier stats model j =
     (let a_j = d1m_a (of_j maj ! j);
          b_j = d1m_b (of_j maj ! j);
          w0 = w model ! j;
          rows_with_j = (negative_of_j stats ! j + positive_of_j stats ! j) mod 2 ^ 64;
          L1_j = L1 regs rows_with_j w0 a_j;
          L2_j = L2 regs rows_with_j a_j;
          A_j = a_j + 4 * L2_j;
          B_j = a_j * w0 - step_multiplier * b_j + inertia_factor * delta_w model ! j * A_j;
          B_j' = spec_soft_threshold B_j (2 * L1_j)
      in if A_j = 0 then 0 else B_j' / A_j)"

text \<open>A model whose last step is not undone: no previous total loss, a gradient against the step.\<close>

definition ex_model_fresh :: Model where
  "ex_model_fresh = \<lparr>precision = [0], w = [1], delta_w = [1/2], loss_derivative = [1],
               creation_time = [0], current_creation_time = 0,
               prev_total_loss = Infinity, total_loss = Finite 1,
               synced_with_weights = True, iteration_no = 0\<rparr>"


section \<open>Sgd (sgd.h)\<close>

datatype TrainingMode = ALL_FEATURES | NEW_FEATURES

text \<open>\<open>config::Set::SgdLearningRateSchedule\<close>; a field that was never set reads as 0.\<close>

record SgdLearningRateSchedule =
  start_learning_rate :: real
  decay_speed :: real

text \<open>
  The state of \<open>Sgd\<close> that the pass reads and writes: the shared weight vector
  \<open>weights_\<close> (one atomic double per J), the schedule, the 32-bit counter of processed
  rows and the training mode. The updates of one thread are modelled, in the order of
  its loop: a compare-exchange loop that is not disturbed runs its body once.
\<close>

record Sgd =
  weights :: "real list"
  learning_rate :: SgdLearningRateSchedule
  learning_rate_counter :: nat
  training_mode :: TrainingMode

text \<open>
  \<open>GetLearningRate\<close>; \<open>row_count\<close> is \<open>data_->GetTraining().GetStats().RowCount()\<close>.
\<close>

definition GetLearningRate :: "Sgd \<Rightarrow> nat \<Rightarrow> real" where
  "GetLearningRate sgd row_count =
     (let current_count = real (learning_rate_counter sgd);
          iteration_progress = current_count / real row_count
      in start_learning_rate (learning_rate sgd)
           / (1 + decay_speed (learning_rate sgd) * iteration_progress))"

text \<open>
  \<open>ApplyRegularization\<close>; \<open>shard_count\<close> is \<open>data_->GetTraining().GetShards().size()\<close>.
\<close>

definition ApplyRegularization_step ::
  "Regularizations \<Rightarrow> Model \<Rightarrow> real \<Rightarrow> nat \<Rightarrow> error + Sgd \<Rightarrow> error + Sgd" where
  "ApplyRegularization_step regularizations model rate j acc =
     (case acc of
        Inl e \<Rightarrow> Inl e
      | Inr sgd \<Rightarrow>
          (case (if training_mode sgd = NEW_FEATURES then IsFeatureNew model j else Inr True) of
             Inl e \<Rightarrow> Inl e
           | Inr eligible \<Rightarrow>
               if \<not> eligible then Inr sgd
               else if \<not> j < length (weights sgd) then Inl OutOfBounds
               else
                 (let old_value = weights sgd ! j;
                      delta = (l1 (regularization regularizations) * Sign old_value
                                 + 2 * l2 (regularization regularizations) * old_value) * rate;
                      new_value = old_value - delta;
                      new_value = (if Sign old_value \<noteq> Sign new_value then 0 else new_value)
                  in Inr (sgd\<lparr>weights := (weights sgd)[j := new_value]\<rparr>))))"

definition ApplyRegularization :: "Sgd \<Rightarrow> Regularizations \<Rightarrow> Model \<Rightarrow> nat \<Rightarrow> nat \<Rightarrow> error + Sgd" where
  "ApplyRegularization sgd regularizations model shard_count row_count =
     fold (ApplyRegularization_step regularizations model
             (GetLearningRate sgd row_count / real shard_count))
          (Range_u32 (length (w model))) (Inr sgd)"

text \<open>
  The update of the specification for one weight: a step of size \<open>eta\<close> against
  \<open>L1 * sign(w) + 2 * L2 * w\<close>, clipped to 0 when the sign changes.
\<close>

definition spec_regularized_weight :: "real \<Rightarrow> real \<Rightarrow> real \<Rightarrow> real \<Rightarrow> real" where
  "spec_regularized_weight eta l1c l2c wj =
     (let new_value = wj - eta * (l1c * Sign wj + 2 * l2c * wj)
      in if Sign wj \<noteq> Sign new_value then 0 else new_value)"

text \<open>J takes part in the pass: every J, or in the mode \<open>NEW_FEATURES\<close> the new ones.\<close>

definition eligible_j :: "Sgd \<Rightarrow> Model \<Rightarrow> nat \<Rightarrow> bool" where
  "eligible_j sgd model j =
     (training_mode sgd = NEW_FEATURES \<longrightarrow> creation_time model ! j = current_creation_time model)"

definition ex_sgd :: Sgd where
  "ex_sgd = \<lparr>weights = [1], learning_rate = \<lparr>start_learning_rate = 1, decay_speed = 0\<rparr>,
             learning_rate_counter = 0, training_mode = ALL_FEATURES\<rparr>"

definition ex_sgd_regs :: Regularizations where
  "ex_sgd_regs = \<lparr>regularization = \<lparr>l1 = 0, l2 = 1/8, l1_at_weight_zero = 0\<rparr>,
              regularization_div_sqrt_n = \<lparr>l1 = 0, l2 = 0, l1_at_weight_zero = 0\<rparr>,
              regularization_mul_sqrt_n = \<lparr>l1 = 0, l2 = 0, l1_at_weight_zero = 0\<rparr>,
              regularization_confidence = \<lparr>l1 = 0, l2 = 0, l1_at_weight_zero = 0\<rparr>\<rparr>"



text \<open>
  An entry of the queue \<open>pq_\<close> is \<open>(sum, (row, column))\<close>, with row and column positions
  in the vector \<open>v_\<close> of \<open>(priority, T)\<close> pairs. \<open>std::priority_queue\<close> with the default
  comparison is a max-heap on the lexicographic order of these pairs: \<open>top()\<close> is the
  greatest entry. The queue is a list of its entries; equal entries cannot be told apart.
\<close>

type_synonym psi_entry = "real \<times> (nat \<times> nat)"

definition pq_top :: "psi_entry list \<Rightarrow> psi_entry" where
  "pq_top pq = fold max (tl pq) (hd pq)"

definition pq_pop :: "psi_entry list \<Rightarrow> psi_entry list" where
  "pq_pop pq = remove1 (pq_top pq) pq"

text \<open>\<open>InsertNext(p)\<close>: the entry to the right of \<open>p\<close> in its row, when there is one.\<close>

definition InsertNext :: "(real \<times> nat) list \<Rightarrow> nat \<times> nat \<Rightarrow> psi_entry list \<Rightarrow> psi_entry list" where
  "InsertNext v p pq =
     (let np = (fst p, (snd p + 1) mod 2 ^ 32)
      in if snd np \<ge> length v then pq
         else pq @ [(fst (v ! fst np) + fst (v ! snd np), np)])"

text \<open>The constructor: \<open>CHECK(!v_.empty())\<close>, then \<open>InsertNext((j, j))\<close> for every position.\<close>

definition PrioritySumIterator :: "(real \<times> nat) list \<Rightarrow> error + psi_entry list" where
  "PrioritySumIterator v =
     (if v = [] then Inl CheckFailed
      else Inr (fold (\<lambda>j. InsertNext v (j, j)) (Range_u32 (length v)) []))"

definition HasNext :: "psi_entry list \<Rightarrow> bool" where
  "HasNext pq = (pq \<noteq> [])"

text \<open>
  \<open>Next()\<close>, for a queue that is not empty (the caller tests \<open>HasNext()\<close> first): the
  pair of \<open>T\<close>s of the top entry and the queue after the call.
\<close>

definition Next :: "(real \<times> nat) list \<Rightarrow> psi_entry list \<Rightarrow> (nat \<times> nat) \<times> psi_entry list" where
  "Next v pq =
     (let e = pq_top pq;
          pq = pq_pop pq;
          pq = InsertNext v (snd e) pq
      in ((snd (v ! fst (snd e)), snd (v ! snd (snd e))), pq))"

text \<open>The first \<open>n\<close> pairs that a loop of \<open>HasNext()\<close> and \<open>Next()\<close> calls receives.\<close>

fun psi_take :: "nat \<Rightarrow> (real \<times> nat) list \<Rightarrow> psi_entry list \<Rightarrow> (nat \<times> nat) list" where
  "psi_take 0 v pq = []"
| "psi_take (Suc n) v pq =
     (if \<not> HasNext pq then []
      else (case Next v pq of (p, pq') \<Rightarrow> p # psi_take n v pq'))"

text \<open>
  \<open>best_js\<close>: the pairs \<open>(j_to_score[j], j)\<close> for the Js of \<open>product_map_->GetAll()\<close>,
  sorted from the greatest to the least by \<open>std::sort(best_js.rbegin(), best_js.rend())\<close>.
\<close>

definition best_js_of :: "real list \<Rightarrow> nat list \<Rightarrow> error + (real \<times> nat) list" where
  "best_js_of j_to_score all_js =
     (if list_all (\<lambda>j. j < length j_to_score) all_js
      then Inr (rev (sort (map (\<lambda>j. (j_to_score ! j, j)) all_js)))
      else Inl OutOfBounds)"

text \<open>
  The first \<open>n\<close> pairs \<open>j_pair\<close> of the loop of \<open>AddNewProductFeatures\<close>, each after the
  swap that puts the smaller J first.
\<close>

definition candidate_pairs :: "nat \<Rightarrow> real list \<Rightarrow> nat list \<Rightarrow> error + (nat \<times> nat) list" where
  "candidate_pairs n j_to_score all_js =
     (case best_js_of j_to_score all_js of
        Inl e \<Rightarrow> Inl e
      | Inr best_js \<Rightarrow>
          (case PrioritySumIterator best_js of
             Inl e \<Rightarrow> Inl e
           | Inr pq \<Rightarrow>
               Inr (map (\<lambda>(j1, j2). if j1 > j2 then (j2, j1) else (j1, j2))
                      (psi_take n best_js pq))))"

text \<open>\<open>score[j1] + score[j2]\<close> of a pair.\<close>

definition pair_score :: "real list \<Rightarrow> nat \<times> nat \<Rightarrow> real" where
  "pair_score j_to_score p = j_to_score ! fst p + j_to_score ! snd p"

text \<open>
  The queue entries that \<open>psi_take\<close> pops, in order; \<open>psi_take\<close> maps each to its pair.
\<close>

fun psi_take_entries :: "nat \<Rightarrow> (real \<times> nat) list \<Rightarrow> psi_entry list \<Rightarrow> psi_entry list" where
  "psi_take_entries 0 v pq = []"
| "psi_take_entries (Suc n) v pq =
     (if pq = [] then []
      else pq_top pq # psi_take_entries n v (InsertNext v (snd (pq_top pq)) (pq_pop pq)))"

text \<open>
  Every entry of the queue lies right of the diagonal, inside \<open>v\<close>, and carries the sum
  of the two priorities at its positions.
\<close>

definition psi_inv :: "(real \<times> nat) list \<Rightarrow> psi_entry list \<Rightarrow> bool" where
  "psi_inv v pq =
     (\<forall>e \<in> set pq. fst (snd e) < snd (snd e) \<and> snd (snd e) < length v
                    \<and> fst e = fst (v ! fst (snd e)) + fst (v ! snd (snd e)))"

text \<open>
  The entries that are next in their rows after the entries \<open>es\<close> were yielded: in row
  \<open>r\<close> the column right of the diagonal, moved right once for every entry of \<open>es\<close> in
  that row, as long as it is inside \<open>v\<close>.
\<close>

definition psi_row_count :: "nat \<Rightarrow> psi_entry list \<Rightarrow> nat" where
  "psi_row_count r es = length (filter (\<lambda>e. fst (snd e) = r) es)"

definition psi_frontier :: "(real \<times> nat) list \<Rightarrow> psi_entry list \<Rightarrow> psi_entry list" where
  "psi_frontier v es =
     concat (map (\<lambda>r. let c = r + 1 + psi_row_count r es
                      in if c < length v then [(fst (v ! r) + fst (v ! c), (r, c))] else [])
                 [0 ..< length v])"


text \<open>
  A compressed sparse row matrix: row \<open>i\<close> is the slice of \<open>contents_\<close> from
  \<open>boundaries_[i]\<close> to \<open>boundaries_[i + 1]\<close>. The entries of both vectors are 32-bit.
\<close>

record CsrMatrix =
  boundaries :: "nat list"
  contents :: "nat list"

text \<open>
  \<open>GetRow(i)\<close>: \<open>Row(contents_, boundaries_[i], boundaries_[i + 1] - boundaries_[i])\<close>. The
  slice is not pinned to the vector: a row index without its two boundaries, or
  boundaries that do not delimit a part of \<open>contents_\<close>, make the caller read outside of
  the vectors.
\<close>

definition GetRow :: "CsrMatrix \<Rightarrow> nat \<Rightarrow> error + nat list" where
  "GetRow m i =
     (let i1 = (i + 1) mod 2 ^ 32
      in if i < length (boundaries m) \<and> i1 < length (boundaries m)
            \<and> boundaries m ! i \<le> boundaries m ! i1
            \<and> boundaries m ! i1 \<le> length (contents m)
         then Inr (take (boundaries m ! i1 - boundaries m ! i) (drop (boundaries m ! i) (contents m)))
         else Inl OutOfBounds)"


text \<open>Comparison of two doubles that may be \<open>kInfinity\<close>.\<close>

fun less_inf :: "Double_inf \<Rightarrow> Double_inf \<Rightarrow> bool" where
  "less_inf (Finite x) (Finite y) = (x < y)"
| "less_inf (Finite x) Infinity = True"
| "less_inf Infinity y = False"

text \<open>
  The fields of \<open>config::FeaturePruning\<close> that stop the pruning; \<open>None\<close> is a field that
  is not set.
\<close>

record FeaturePruning_config =
  score_threshold :: "Double_inf option"
  top_count :: "nat option"
  top_fraction :: "real option"

text \<open>\<open>std::lround\<close>: to the nearest integer, halves away from zero.\<close>

definition lround :: "real \<Rightarrow> int" where
  "lround x = (if x \<ge> 0 then \<lfloor>x + 1/2\<rfloor> else \<lceil>x - 1/2\<rceil>)"

text \<open>
  \<open>Data::XjBoolCountOfJ(j)\<close>: the sum over the training and the holdout set of
  \<open>Negative(j) + Positive(j)\<close>, 64-bit.
\<close>

definition XjBoolCountOfJ :: "Stats \<Rightarrow> Stats \<Rightarrow> nat \<Rightarrow> error + nat" where
  "XjBoolCountOfJ training holdout j =
     (case GetRowCountWithJPresent training j of
        Inl e \<Rightarrow> Inl e
      | Inr t \<Rightarrow>
          (case GetRowCountWithJPresent holdout j of
             Inl e \<Rightarrow> Inl e
           | Inr h \<Rightarrow> Inr ((t + h) mod 2 ^ 64)))"

text \<open>
  The queue \<open>js_queue\<close> holds pairs \<open>(score, j)\<close>; its comparator looks at the score
  only, and \<open>top()\<close> is an entry of least score. Which of several entries of the same
  least score a \<open>std::priority_queue\<close> returns is not fixed by the language. It is a
  parameter here: \<open>tie k e\<close> ranks the entry \<open>e\<close> at the \<open>k\<close>-th call of \<open>top()\<close>, and among
  the entries of least score the one of least rank is returned. Every choice among the
  entries of least score is obtained from some \<open>tie\<close>.
\<close>

type_synonym js_entry = "Double_inf \<times> nat"

definition js_before :: "(nat \<Rightarrow> js_entry \<Rightarrow> nat) \<Rightarrow> nat \<Rightarrow> js_entry \<Rightarrow> js_entry \<Rightarrow> bool" where
  "js_before tie k a b =
     (less_inf (fst a) (fst b) \<or> (\<not> less_inf (fst b) (fst a) \<and> tie k a \<le> tie k b))"

definition js_top :: "(nat \<Rightarrow> js_entry \<Rightarrow> nat) \<Rightarrow> nat \<Rightarrow> js_entry list \<Rightarrow> js_entry" where
  "js_top tie k q = fold (\<lambda>x best. if js_before tie k best x then best else x) (tl q) (hd q)"

text \<open>
  \<open>triggered_by\<close>, a hash map from a J to the Js it blocks, as an association list.
  \<open>operator[]\<close> on a key that is absent gives the empty vector.
\<close>

definition tb_get :: "(nat \<times> nat list) list \<Rightarrow> nat \<Rightarrow> nat list" where
  "tb_get tb k = (case map_of tb k of None \<Rightarrow> [] | Some js \<Rightarrow> js)"

definition tb_erase :: "(nat \<times> nat list) list \<Rightarrow> nat \<Rightarrow> (nat \<times> nat list) list" where
  "tb_erase tb k = filter (\<lambda>e. fst e \<noteq> k) tb"

definition tb_push_back :: "(nat \<times> nat list) list \<Rightarrow> nat \<Rightarrow> nat \<Rightarrow> (nat \<times> nat list) list" where
  "tb_push_back tb k j = (k, tb_get tb k @ [j]) # tb_erase tb k"

text \<open>The variables of the loop of \<open>ComputePruning\<close>; \<open>tops\<close> counts the calls of \<open>top()\<close>.\<close>

record PruneState =
  js_queue :: "js_entry list"
  triggered_by :: "(nat \<times> nat list) list"
  num_removed_children :: "nat \<Rightarrow> nat"
  removed_js :: "bool list"
  features_removed :: nat
  xjbools_removed :: nat
  tops :: nat

text \<open>
  The inner loop: skip the children at the head of \<open>j_dependees\<close> that are removed,
  starting at \<open>num_removed_children[j]\<close>.
\<close>

function skip_removed :: "bool list \<Rightarrow> nat list \<Rightarrow> nat \<Rightarrow> error + nat" where
  "skip_removed removed j_dependees n =
     (if n \<ge> length j_dependees then Inr n
      else if \<not> j_dependees ! n < length removed then Inl OutOfBounds
      else if \<not> removed ! (j_dependees ! n) then Inr n
      else skip_removed removed j_dependees (n + 1))"
  by pat_completeness auto

termination
  by (relation "measure (\<lambda>(removed, j_dependees, n). length j_dependees - n)") auto

text \<open>
  \<open>js_queue.push(std::make_pair(j_to_score[j], j))\<close> for the Js of a vector in turn: the
  initial filling of the queue, and the re-enqueueing of the Js that a removed J blocked.
\<close>

fun push_js :: "Double_inf list \<Rightarrow> nat list \<Rightarrow> js_entry list \<Rightarrow> error + js_entry list" where
  "push_js j_to_score [] q = Inr q"
| "push_js j_to_score (triggered # rest) q =
     (if triggered < length j_to_score
      then push_js j_to_score rest (q @ [(j_to_score ! triggered, triggered)])
      else Inl OutOfBounds)"

text \<open>
  The tests at the head of the loop \<open>while (true)\<close> that leave it, for a queue that is
  not empty: \<open>score\<close> is the score of the top entry. \<open>js_queue.size()\<close> is compared with
  the \<open>long\<close> result of \<open>std::lround\<close> as an unsigned number, so a negative result counts
  as a large one.
\<close>

definition breaks :: "FeaturePruning_config \<Rightarrow> nat \<Rightarrow> nat \<Rightarrow> Double_inf \<Rightarrow> bool" where
  "breaks config feature_count queue_size score =
     (if score = Infinity then True
      else if (case score_threshold config of None \<Rightarrow> False | Some t \<Rightarrow> less_inf t score) then True
      else if (case top_count config of None \<Rightarrow> False | Some c \<Rightarrow> queue_size \<le> c) then True
      else (case top_fraction config of
              None \<Rightarrow> False
            | Some f \<Rightarrow>
                lround (real feature_count * f) < 0
                \<or> int queue_size \<le> lround (real feature_count * f)))"

text \<open>
  The end of an iteration, after the inner loop has left \<open>n\<close> in
  \<open>num_removed_children[j]\<close>: \<open>j\<close> is declared blocked by its child at \<open>n\<close>, or it is
  removed and the Js it blocked are enqueued again.
\<close>

definition block_or_remove ::
  "Double_inf list \<Rightarrow> Stats \<Rightarrow> Stats \<Rightarrow> nat \<Rightarrow> nat list \<Rightarrow> nat \<Rightarrow> PruneState \<Rightarrow> error + PruneState" where
  "block_or_remove j_to_score training holdout j j_dependees n s =
     (if n < length j_dependees
      then Inr (s\<lparr>triggered_by := tb_push_back (triggered_by s) (j_dependees ! n) j\<rparr>)
      else if \<not> j < length (removed_js s) then Inl OutOfBounds
      else
        (case XjBoolCountOfJ training holdout j of
           Inl e \<Rightarrow> Inl e
         | Inr c \<Rightarrow>
             (case push_js j_to_score (tb_get (triggered_by s) j) (js_queue s) of
                Inl e \<Rightarrow> Inl e
              | Inr q \<Rightarrow>
                  Inr (s\<lparr>features_removed := (features_removed s + 1) mod 2 ^ 64,
                         removed_js := (removed_js s)[j := True],
                         xjbools_removed := (xjbools_removed s + c) mod 2 ^ 64,
                         js_queue := q,
                         triggered_by := tb_erase (triggered_by s) j\<rparr>))))"

text \<open>
  One iteration of the loop \<open>while (true)\<close>. The result is the state after it and
  whether the loop goes on (\<open>False\<close> after a \<open>break\<close>).
\<close>

definition ComputePruning_iter ::
  "(nat \<Rightarrow> js_entry \<Rightarrow> nat) \<Rightarrow> FeaturePruning_config \<Rightarrow> Double_inf list \<Rightarrow> CsrMatrix \<Rightarrow> Stats \<Rightarrow> Stats
     \<Rightarrow> nat \<Rightarrow> PruneState \<Rightarrow> error + (bool \<times> PruneState)" where
  "ComputePruning_iter tie config j_to_score dependees training holdout feature_count s =
     (if js_queue s = [] then Inr (False, s)
      else
        (let top = js_top tie (tops s) (js_queue s)
         in if breaks config feature_count (length (js_queue s)) (fst top) then Inr (False, s)
            else
              (let j = snd top;
                   s = s\<lparr>js_queue := remove1 top (js_queue s), tops := tops s + 1\<rparr>
               in case GetRow dependees j of
                    Inl e \<Rightarrow> Inl e
                  | Inr j_dependees \<Rightarrow>
                      (case skip_removed (removed_js s) j_dependees (num_removed_children s j) of
                         Inl e \<Rightarrow> Inl e
                       | Inr n \<Rightarrow>
                           (case block_or_remove j_to_score training holdout j j_dependees n
                                   (s\<lparr>num_removed_children := (num_removed_children s)(j := n)\<rparr>) of
                              Inl e \<Rightarrow> Inl e
                            | Inr s \<Rightarrow> Inr (True, s))))))"

text \<open>The two parts of the order in which the loop descends.\<close>

definition unremoved_count :: "PruneState \<Rightarrow> nat" where
  "unremoved_count s = length (filter Not (removed_js s))"

definition pending_count :: "PruneState \<Rightarrow> nat" where
  "pending_count s =
     length (js_queue s)
     + sum_list (map (\<lambda>e. if fst e < length (removed_js s) \<and> removed_js s ! fst e
                            then length (snd e) else 0) (triggered_by s))"

function ComputePruning_loop ::
  "(nat \<Rightarrow> js_entry \<Rightarrow> nat) \<Rightarrow> FeaturePruning_config \<Rightarrow> Double_inf list \<Rightarrow> CsrMatrix \<Rightarrow> Stats \<Rightarrow> Stats
     \<Rightarrow> nat \<Rightarrow> PruneState \<Rightarrow> error + PruneState" where
  "ComputePruning_loop tie config j_to_score dependees training holdout feature_count s =
     (case ComputePruning_iter tie config j_to_score dependees training holdout feature_count s of
        Inl e \<Rightarrow> Inl e
      | Inr (go_on, s') \<Rightarrow>
          if go_on
          then ComputePruning_loop tie config j_to_score dependees training holdout feature_count s'
          else Inr s')"
  by pat_completeness auto

text \<open>
  The loop after the pruning loop: the Js that are still blocked are counted for the
  log, with \<open>XjBoolCountOfJ\<close> of each.
\<close>

fun sum_xjbools :: "Stats \<Rightarrow> Stats \<Rightarrow> nat list \<Rightarrow> nat \<Rightarrow> error + nat" where
  "sum_xjbools training holdout [] acc = Inr acc"
| "sum_xjbools training holdout (j # js) acc =
     (case XjBoolCountOfJ training holdout j of
        Inl e \<Rightarrow> Inl e
      | Inr c \<Rightarrow> sum_xjbools training holdout js ((acc + c) mod 2 ^ 64))"

fun count_blocked :: "Stats \<Rightarrow> Stats \<Rightarrow> (nat \<times> nat list) list \<Rightarrow> nat \<times> nat \<Rightarrow> error + (nat \<times> nat)" where
  "count_blocked training holdout [] acc = Inr acc"
| "count_blocked training holdout (e # tb) acc =
     (case sum_xjbools training holdout (snd e) (snd acc) of
        Inl err \<Rightarrow> Inl err
      | Inr x \<Rightarrow> count_blocked training holdout tb ((fst acc + length (snd e)) mod 2 ^ 64, x))"

text \<open>\<open>Stats::MaterializedXjBoolCount()\<close> and \<open>Data::MaterializedXjBoolCount()\<close>.\<close>

definition Stats_MaterializedXjBoolCount :: "Stats \<Rightarrow> nat" where
  "Stats_MaterializedXjBoolCount st =
     (sum_list (positive_of_j st) + sum_list (negative_of_j st)) mod 2 ^ 64"

definition MaterializedXjBoolCount :: "Stats \<Rightarrow> Stats \<Rightarrow> nat" where
  "MaterializedXjBoolCount training holdout =
     (Stats_MaterializedXjBoolCount training + Stats_MaterializedXjBoolCount holdout) mod 2 ^ 64"

text \<open>The fields of \<open>logs::FeaturePruning\<close> that \<open>ComputePruning\<close> sets.\<close>

record FeaturePruning_log =
  log_blocked_features :: nat
  log_blocked_xjbools :: nat
  log_features_removed :: nat
  log_xjbools_count :: nat
  log_xjbools_removed :: nat

text \<open>
  \<open>FeaturePruning::ComputePruning\<close>. \<open>all_js\<close> are the Js of
  \<open>world_->product_map()->GetAll()\<close> in its order, \<open>model_size\<close> is
  \<open>world_->model()->GetSize()\<close>, and the two \<open>Stats\<close> are those of the training and the
  holdout set of \<open>world_->data()\<close>.
\<close>

definition ComputePruning ::
  "(nat \<Rightarrow> js_entry \<Rightarrow> nat) \<Rightarrow> FeaturePruning_config \<Rightarrow> Double_inf list \<Rightarrow> nat list \<Rightarrow> CsrMatrix
     \<Rightarrow> Stats \<Rightarrow> Stats \<Rightarrow> nat \<Rightarrow> error + (bool list \<times> FeaturePruning_log)" where
  "ComputePruning tie config j_to_score all_js dependees training holdout model_size =
     (case push_js j_to_score all_js [] of
        Inl e \<Rightarrow> Inl e
      | Inr q \<Rightarrow>
          (case ComputePruning_loop tie config j_to_score dependees training holdout (length q)
                  \<lparr>js_queue = q, triggered_by = [], num_removed_children = (\<lambda>j. 0),
                   removed_js = replicate model_size False, features_removed = 0,
                   xjbools_removed = 0, tops = 0\<rparr> of
             Inl e \<Rightarrow> Inl e
           | Inr s \<Rightarrow>
               (case count_blocked training holdout (triggered_by s) (0, 0) of
                  Inl e \<Rightarrow> Inl e
                | Inr (blocked_features, blocked_xjbools) \<Rightarrow>
                    Inr (removed_js s,
                         \<lparr>log_blocked_features = blocked_features,
                          log_blocked_xjbools = blocked_xjbools,
                          log_features_removed = features_removed s,
                          log_xjbools_count =
                            (MaterializedXjBoolCount training holdout + 2 ^ 64 - xjbools_removed s) mod 2 ^ 64,
                          log_xjbools_removed = xjbools_removed s\<rparr>))))"

text \<open>
  The invariant of the pruning loop behind the dependency policy: every child of a
  removed J is removed, and the first \<open>num_removed_children[j]\<close> children of every \<open>j\<close> are
  removed (the invariant that the source states for this map).
\<close>

definition children_removed :: "CsrMatrix \<Rightarrow> bool list \<Rightarrow> bool" where
  "children_removed dependees removed =
     (\<forall>j < length removed. removed ! j \<longrightarrow>
        (\<exists>j_dependees. GetRow dependees j = Inr j_dependees
           \<and> (\<forall>c \<in> set j_dependees. c < length removed \<and> removed ! c)))"

definition prefix_removed :: "CsrMatrix \<Rightarrow> PruneState \<Rightarrow> bool" where
  "prefix_removed dependees s =
     (\<forall>j j_dependees i. GetRow dependees j = Inr j_dependees \<and> i < num_removed_children s j
          \<and> i < length j_dependees
        \<longrightarrow> j_dependees ! i < length (removed_js s) \<and> removed_js s ! (j_dependees ! i))"

text \<open>Every entry of the queue carries the score of its J.\<close>

definition queue_scored :: "Double_inf list \<Rightarrow> js_entry list \<Rightarrow> bool" where
  "queue_scored j_to_score q = (\<forall>e \<in> set q. snd e < length j_to_score \<and> fst e = j_to_score ! snd e)"

definition tb_sum :: "bool list \<Rightarrow> (nat \<times> nat list) list \<Rightarrow> nat" where
  "tb_sum removed tb =
     sum_list (map (\<lambda>e. if fst e < length removed \<and> removed ! fst e then length (snd e) else 0) tb)"

definition removed_below :: "Double_inf \<Rightarrow> Double_inf list \<Rightarrow> bool list \<Rightarrow> bool" where
  "removed_below t j_to_score removed =
     (\<forall>j < length removed. removed ! j \<longrightarrow> j < length j_to_score \<and> \<not> less_inf t (j_to_score ! j))"

text \<open>
  A pruning run: the features 0 and 1 and their product 2, with the scores 1, 3 and 2 and
  the threshold 2; every entry has the same rank.
\<close>

definition ex_tie :: "nat \<Rightarrow> js_entry \<Rightarrow> nat" where
  "ex_tie k e = 0"

definition ex_dependees :: CsrMatrix where
  "ex_dependees = \<lparr>boundaries = [0, 1, 2, 2], contents = [2, 2]\<rparr>"

definition ex_training :: Stats where
  "ex_training = \<lparr>positive_row_count = 1, negative_row_count = 0,
                  positive_of_j = [1, 1, 1], negative_of_j = [0, 0, 0], hash_of_j = [0, 0, 0]\<rparr>"

definition ex_holdout :: Stats where
  "ex_holdout = \<lparr>positive_row_count = 0, negative_row_count = 0,
                 positive_of_j = [0, 0, 0], negative_of_j = [0, 0, 0], hash_of_j = [0, 0, 0]\<rparr>"

definition ex_pruning_config :: FeaturePruning_config where
  "ex_pruning_config = \<lparr>score_threshold = Some (Finite 2), top_count = None, top_fraction = None\<rparr>"


section \<open>RowExtender (row\_extender.h)\<close>

text \<open>
  The body of the inner loop of \<open>ExtendSparseBool\<close> for one child:
  \<open>++cpu_operation_count_flat_materialization_; uint32& d = dependencies_[child_j];
  d += 1; if (d == 2) rewritten_row_.push_back(child_j)\<close>. The hash map \<open>dependencies_\<close>
  is a function from J to the counter, 0 for a J without entry (\<open>operator[]\<close> inserts a
  zero). \<open>DCHECK(d == 0 || d == 1)\<close> is a debug assertion and is compiled out of a
  release build.
\<close>

definition add_child :: "nat \<Rightarrow> (nat \<Rightarrow> nat) \<times> nat list \<times> nat \<Rightarrow> (nat \<Rightarrow> nat) \<times> nat list \<times> nat" where
  "add_child child_j s =
     (case s of (dependencies, rewritten_row, cpu) \<Rightarrow>
        (let d = (dependencies child_j + 1) mod 2 ^ 32
         in (dependencies(child_j := d),
             if d = 2 then rewritten_row @ [child_j] else rewritten_row,
             (cpu + 1) mod 2 ^ 64)))"

text \<open>
  The outer loop, \<open>for (uint32 i = 0; i < rewritten_row_.size(); ++i)\<close>, over the row
  that grows while it is walked. The result is the row and the operation count; \<open>None\<close>
  is a loop that does not end.
\<close>

partial_function (option) ExtendSparseBool_loop ::
  "CsrMatrix \<Rightarrow> nat \<Rightarrow> (nat \<Rightarrow> nat) \<Rightarrow> nat list \<Rightarrow> nat \<Rightarrow> (error + nat list \<times> nat) option" where
  "ExtendSparseBool_loop dependees i dependencies rewritten_row cpu =
     (if \<not> i < length rewritten_row then Some (Inr (rewritten_row, cpu))
      else
        (case GetRow dependees (rewritten_row ! i) of
           Inl e \<Rightarrow> Some (Inl e)
         | Inr children \<Rightarrow>
             (case fold add_child children (dependencies, rewritten_row, cpu) of
                (dependencies', rewritten_row', cpu') \<Rightarrow>
                  ExtendSparseBool_loop dependees ((i + 1) mod 2 ^ 32) dependencies'
                    rewritten_row' cpu')))"

text \<open>
  \<open>ExtendSparseBool\<close>: \<open>CHECK(dependees_ != nullptr)\<close>, the loop from an empty
  \<open>dependencies_\<close> (it is cleared at the end of every call), on the row that \<open>ResetRow\<close>
  has copied into \<open>rewritten_row_\<close>.
\<close>

definition ExtendSparseBool :: "CsrMatrix option \<Rightarrow> nat list \<Rightarrow> nat \<Rightarrow> (error + nat list \<times> nat) option" where
  "ExtendSparseBool dependees rewritten_row cpu =
     (case dependees of
        None \<Rightarrow> Some (Inl CheckFailed)
      | Some m \<Rightarrow> ExtendSparseBool_loop m 0 (\<lambda>j. 0) rewritten_row cpu)"



text \<open>
  The dependees of three features, where J 2 is the product that exploration made of
  the pair \<open>(0, 1)\<close>: \<open>SetTrue(0, 2)\<close> and \<open>SetTrue(1, 2)\<close>, and no other edge.
\<close>

definition ex_product_dependees :: CsrMatrix where
  "ex_product_dependees = \<lparr>boundaries = [0, 1, 2, 2], contents = [2, 2]\<rparr>"

section \<open>Shards and data sets (data.h)\<close>






section \<open>GradBoost (optimizers.h)\<close>



































section \<open>The renumbering built from a removal bitset\<close>

lemma RemoveJs_fold:
  "n \<le> length bs \<Longrightarrow>
   fold (RemoveJs_step bs) [0 ..< n] (Inr \<lparr>j_to_new_j = replicate (length bs) 0, next_j = 0\<rparr>)
     = Inr \<lparr>j_to_new_j = map (\<lambda>i. if i < n \<and> bs ! i then kInvalidJ else 0) [0 ..< length bs], next_j = 0\<rparr>"
proof (induction n)
  case 0
  then show ?case by (simp add: map_replicate_trivial)
next
  case (Suc n)
  let ?r0 = "Inr \<lparr>j_to_new_j = replicate (length bs) 0, next_j = 0\<rparr> :: error + JRenumbering"
  let ?m = "\<lambda>n. map (\<lambda>i. if i < n \<and> bs ! i then kInvalidJ else 0) [0 ..< length bs]"
  from Suc have IH: "fold (RemoveJs_step bs) [0 ..< n] ?r0 = Inr \<lparr>j_to_new_j = ?m n, next_j = 0\<rparr>"
    by simp
  have step: "fold (RemoveJs_step bs) [0 ..< Suc n] ?r0
      = RemoveJs_step bs n (Inr \<lparr>j_to_new_j = ?m n, next_j = 0\<rparr>)"
    using IH by simp
  have upd: "(if bs ! n then (?m n)[n := kInvalidJ] else ?m n) = ?m (Suc n)"
  proof (cases "bs ! n")
    case True
    have "(?m n)[n := kInvalidJ] = ?m (Suc n)"
      using Suc.prems True by (intro nth_equalityI) (auto simp: nth_list_update less_Suc_eq)
    with True show ?thesis by simp
  next
    case False
    have "?m n = ?m (Suc n)"
      using Suc.prems False by (intro nth_equalityI) (auto simp: less_Suc_eq)
    with False show ?thesis by simp
  qed
  have "RemoveJs_step bs n (Inr \<lparr>j_to_new_j = ?m n, next_j = 0\<rparr>)
      = Inr \<lparr>j_to_new_j = (if bs ! n then (?m n)[n := kInvalidJ] else ?m n), next_j = 0\<rparr>"
    using Suc.prems by (simp add: RemoveJs_step_def SetInvalid_def)
  with step upd show ?case by simp
qed

lemma map_upt_nth: "map (\<lambda>i. f (bs ! i)) [0 ..< length bs] = map f bs"
  by (intro nth_equalityI) auto

lemma FillJToNewJ_loop_renum:
  "k + length (filter Not bs) < 2 ^ 32 \<Longrightarrow>
   FillJToNewJ_loop (map (\<lambda>b. if b then kInvalidJ else 0) bs) k
     = Inr (renum bs k, k + length (filter Not bs))"
proof (induction bs arbitrary: k)
  case Nil
  then show ?case by simp
next
  case (Cons b bs)
  show ?case
  proof (cases b)
    case True
    with Cons show ?thesis by (simp add: kInvalidJ_def)
  next
    case False
    with Cons.prems have "Suc k + length (filter Not bs) < 2 ^ 32" by simp
    from Cons.IH[OF this] False Cons.prems show ?thesis by simp
  qed
qed

lemma length_renum: "length (renum bs k) = length bs"
  by (induction bs arbitrary: k) auto

lemma renum_nth:
  "j < length bs \<Longrightarrow>
   renum bs k ! j = (if bs ! j then kInvalidJ else k + length (filter Not (take j bs)))"
proof (induction bs arbitrary: k j)
  case Nil
  then show ?case by simp
next
  case (Cons b bs)
  then show ?case by (cases j) auto
qed

lemma RemoveJs_eq:
  assumes "length bs < 2 ^ 32"
  shows "RemoveJs bs = Inr \<lparr>j_to_new_j = renum bs 0, next_j = length (filter Not bs)\<rparr>"
proof -
  have le: "length (filter Not bs) \<le> length bs" by simp
  have "fold (RemoveJs_step bs) [0 ..< length bs] (Inr \<lparr>j_to_new_j = replicate (length bs) 0, next_j = 0\<rparr>)
     = Inr \<lparr>j_to_new_j = map (\<lambda>b. if b then kInvalidJ else 0) bs, next_j = 0\<rparr>"
  proof -
    have "map (\<lambda>i. if i < length bs \<and> bs ! i then kInvalidJ else 0) [0 ..< length bs]
        = map (\<lambda>b. if b then kInvalidJ else 0) bs"
      by (intro nth_equalityI) auto
    with RemoveJs_fold[of "length bs" bs] show ?thesis by simp
  qed
  moreover have "FillJToNewJ_loop (map (\<lambda>b. if b then kInvalidJ else 0) bs) 0
     = Inr (renum bs 0, length (filter Not bs))"
  proof -
    from assms le have "0 + length (filter Not bs) < 2 ^ 32" by linarith
    from FillJToNewJ_loop_renum[OF this] show ?thesis by simp
  qed
  ultimately show ?thesis
    using assms by (simp add: RemoveJs_def FillJToNewJ_def Range_u32_def)
qed


lemma card_survivors_take:
  "j \<le> length bs \<Longrightarrow> length (filter Not (take j bs)) = card {i. i < j \<and> \<not> bs ! i}"
proof (induction j)
  case 0
  then show ?case by simp
next
  case (Suc j)
  then have j: "j < length bs" by simp
  have split: "{i. i < Suc j \<and> \<not> bs ! i} = (if bs ! j then {} else {j}) \<union> {i. i < j \<and> \<not> bs ! i}"
    by (auto simp: less_Suc_eq)
  have fin: "finite {i. i < j \<and> \<not> bs ! i}" by simp
  from Suc j show ?case
    by (simp add: take_Suc_conv_app_nth split)
qed

text \<open>
  Claim C4. For a removal bitset whose size fits the 32-bit J space, \<open>RemoveJs\<close>
  succeeds; the renumbering maps every removed J to \<open>kInvalidJ\<close>, no survivor to
  \<open>kInvalidJ\<close>, and the survivors bijectively onto the interval from 0 to \<open>next_j\<close>
  (exclusive), strictly increasing: their relative order is preserved and there is no gap.
\<close>

theorem RemoveJs_renumbering:
  assumes len: "length js_to_remove < 2 ^ 32"
  shows "\<exists>r. RemoveJs js_to_remove = Inr r
           \<and> length (j_to_new_j r) = length js_to_remove
           \<and> next_j r = card {j. j < length js_to_remove \<and> \<not> js_to_remove ! j}
           \<and> (\<forall>j < length js_to_remove. js_to_remove ! j \<longrightarrow> j_to_new_j r ! j = kInvalidJ)
           \<and> (\<forall>j < length js_to_remove. \<not> js_to_remove ! j \<longrightarrow> j_to_new_j r ! j \<noteq> kInvalidJ)
           \<and> bij_betw (\<lambda>j. j_to_new_j r ! j)
                 {j. j < length js_to_remove \<and> \<not> js_to_remove ! j} {0 ..< next_j r}
           \<and> (\<forall>i j. i < j \<and> j < length js_to_remove \<and> \<not> js_to_remove ! i \<and> \<not> js_to_remove ! j
                  \<longrightarrow> j_to_new_j r ! i < j_to_new_j r ! j)"
proof -
  let ?bs = js_to_remove
  let ?S = "{j. j < length ?bs \<and> \<not> ?bs ! j}"
  let ?new = "\<lambda>j. card {i. i < j \<and> \<not> ?bs ! i}"
  define r where "r = \<lparr>j_to_new_j = renum ?bs 0, next_j = length (filter Not ?bs)\<rparr>"
  have eq: "RemoveJs ?bs = Inr r"
    unfolding r_def by (rule RemoveJs_eq[OF len])
  have nth_surv: "j_to_new_j r ! j = ?new j" if "j < length ?bs" "\<not> ?bs ! j" for j
    using that card_survivors_take[of j ?bs] by (simp add: r_def renum_nth)
  have nth_rem: "j_to_new_j r ! j = kInvalidJ" if "j < length ?bs" "?bs ! j" for j
    using that by (simp add: r_def renum_nth)
  have nxt: "next_j r = card ?S"
    using card_survivors_take[of "length ?bs" ?bs] by (simp add: r_def)
  have finS: "finite ?S" by simp
  have mono: "?new i < ?new j" if "i < j" "j < length ?bs" "\<not> ?bs ! i" for i j
  proof -
    have "{k. k < i \<and> \<not> ?bs ! k} \<subset> {k. k < j \<and> \<not> ?bs ! k}"
      using that by auto
    then show ?thesis by (intro psubset_card_mono) auto
  qed
  have bound: "?new j < card ?S" if "j < length ?bs" "\<not> ?bs ! j" for j
  proof -
    have "{k. k < j \<and> \<not> ?bs ! k} \<subset> ?S" using that by auto
    then show ?thesis by (intro psubset_card_mono) auto
  qed
  have inj: "inj_on (\<lambda>j. j_to_new_j r ! j) ?S"
  proof (rule inj_onI)
    fix x y assume x: "x \<in> ?S" and y: "y \<in> ?S" and e: "j_to_new_j r ! x = j_to_new_j r ! y"
    from x y e have e': "?new x = ?new y" by (simp add: nth_surv)
    show "x = y"
    proof (rule ccontr)
      assume "x \<noteq> y"
      then consider "x < y" | "y < x" by linarith
      then show False
      proof cases
        case 1 with mono[of x y] x y e' show False by simp
      next
        case 2 with mono[of y x] x y e' show False by simp
      qed
    qed
  qed
  have sub: "(\<lambda>j. j_to_new_j r ! j) ` ?S \<subseteq> {0 ..< next_j r}"
    using bound by (auto simp: nth_surv nxt)
  have "card ((\<lambda>j. j_to_new_j r ! j) ` ?S) = card {0 ..< next_j r}"
    using card_image[OF inj] by (simp add: nxt)
  with sub have img: "(\<lambda>j. j_to_new_j r ! j) ` ?S = {0 ..< next_j r}"
    by (intro card_subset_eq) auto
  have bij: "bij_betw (\<lambda>j. j_to_new_j r ! j) ?S {0 ..< next_j r}"
    unfolding bij_betw_def using inj img by simp
  have le: "card ?S \<le> length ?bs"
  proof -
    have "card ?S = length (filter Not ?bs)"
      using card_survivors_take[of "length ?bs" ?bs] by simp
    then show ?thesis by simp
  qed
  have ninv: "j_to_new_j r ! j \<noteq> kInvalidJ" if "j < length ?bs" "\<not> ?bs ! j" for j
  proof -
    from bound[OF that] le len have "?new j < 2 ^ 32 - 1" by linarith
    with that show ?thesis by (simp add: nth_surv kInvalidJ_def)
  qed
  have len_r: "length (j_to_new_j r) = length ?bs"
    by (simp add: r_def length_renum)
  have incr: "\<forall>i j. i < j \<and> j < length ?bs \<and> \<not> ?bs ! i \<and> \<not> ?bs ! j
                  \<longrightarrow> j_to_new_j r ! i < j_to_new_j r ! j"
    using mono by (auto simp: nth_surv)
  from eq len_r nxt nth_rem ninv bij incr show ?thesis by blast
qed

theorem RemoveJs_renumbering_witness:
  "length [False, True, False, False, True] < (2::nat) ^ 32
   \<and> RemoveJs [False, True, False, False, True]
       = Inr \<lparr>j_to_new_j = [0, kInvalidJ, 1, 2, kInvalidJ], next_j = 3\<rparr>
   \<and> bij_betw (\<lambda>j. [0, kInvalidJ, 1, 2, kInvalidJ] ! j)
        {j. j < length [False, True, False, False, True] \<and> \<not> [False, True, False, False, True] ! j} {0 ..< 3}"
proof -
  have len: "length [False, True, False, False, True] < (2::nat) ^ 32" by simp
  have run: "RemoveJs [False, True, False, False, True]
       = Inr \<lparr>j_to_new_j = [0, kInvalidJ, 1, 2, kInvalidJ], next_j = 3\<rparr>"
    by (simp add: RemoveJs_def Range_u32_def RemoveJs_step_def SetInvalid_def FillJToNewJ_def kInvalidJ_def upt_rec)
  from RemoveJs_renumbering[OF len] run len show ?thesis by auto
qed

section \<open>The batch coordinate update\<close>

lemma fold_upt_Suc: "fold f [0 ..< Suc n] x = f n (fold f [0 ..< n] x)"
  by simp

lemma GetRowCountWithJPresent_ok:
  "j < length (negative_of_j stats) \<Longrightarrow> j < length (positive_of_j stats) \<Longrightarrow>
   GetRowCountWithJPresent stats j = Inr ((negative_of_j stats ! j + positive_of_j stats ! j) mod 2 ^ 64)"
  by (simp add: GetRowCountWithJPresent_def Negative_def Positive_def)

lemma UpdateMinimum_step_fold:
  assumes sizes: "length (of_j maj) = n" "length (w model) = n" "length (delta_w model) = n"
      "length (precision model) = n" "length (loss_derivative model) = n"
      "n \<le> length (positive_of_j stats)" "n \<le> length (negative_of_j stats)"
  shows "k \<le> n \<Longrightarrow>
     \<exists>model' dot lds dws.
       fold (UpdateMinimum_step regs maj inertia_factor step_multiplier stats) [0 ..< k] (Inr (model, 0, 0, 0))
         = Inr (model', dot, lds, dws)
       \<and> w model' = map (\<lambda>i. if i < k then coordinate_new_w regs maj inertia_factor step_multiplier stats model i
                               else w model ! i) [0 ..< n]
       \<and> delta_w model' = map (\<lambda>i. if i < k then coordinate_new_w regs maj inertia_factor step_multiplier stats model i - w model ! i
                               else delta_w model ! i) [0 ..< n]
       \<and> length (precision model') = n
       \<and> loss_derivative model' = loss_derivative model
       \<and> dot = (\<Sum>i < k. loss_derivative model ! i
                    * (coordinate_new_w regs maj inertia_factor step_multiplier stats model i - w model ! i))"
proof (induction k)
  case 0
  have "w model = map (\<lambda>i. w model ! i) [0 ..< n]" "delta_w model = map (\<lambda>i. delta_w model ! i) [0 ..< n]"
    using sizes map_nth[of "w model"] map_nth[of "delta_w model"] by simp_all
  then show ?case using sizes by auto
next
  case (Suc k)
  let ?f = "UpdateMinimum_step regs maj inertia_factor step_multiplier stats"
  let ?new = "coordinate_new_w regs maj inertia_factor step_multiplier stats model"
  from Suc obtain model1 dot lds dws where
    f: "fold ?f [0 ..< k] (Inr (model, 0, 0, 0)) = Inr (model1, dot, lds, dws)"
    and w1: "w model1 = map (\<lambda>i. if i < k then ?new i else w model ! i) [0 ..< n]"
    and d1: "delta_w model1 = map (\<lambda>i. if i < k then ?new i - w model ! i else delta_w model ! i) [0 ..< n]"
    and p1: "length (precision model1) = n"
    and l1: "loss_derivative model1 = loss_derivative model"
    and dt: "dot = (\<Sum>i < k. loss_derivative model ! i * (?new i - w model ! i))"
    by auto
  have k: "k < n" using Suc.prems by simp
  have wk: "w model1 ! k = w model ! k" and dk: "delta_w model1 ! k = delta_w model ! k"
    using k by (simp_all add: w1 d1)
  have rows: "GetRowCountWithJPresent stats k
      = Inr ((negative_of_j stats ! k + positive_of_j stats ! k) mod 2 ^ 64)"
    using k sizes by (intro GetRowCountWithJPresent_ok) auto
  define model2 where "model2 =
     model1\<lparr>precision := (precision model1)[k := GetPrecision regs (of_j maj ! k)
                ((negative_of_j stats ! k + positive_of_j stats ! k) mod 2 ^ 64) (w model ! k)],
            delta_w := (delta_w model1)[k := ?new k - w model ! k],
            w := (w model1)[k := ?new k]\<rparr>"
  have step: "\<exists>lds' dws'. ?f k (Inr (model1, dot, lds, dws))
      = Inr (model2, dot + loss_derivative model ! k * (?new k - w model ! k), lds', dws')"
    using k sizes p1 l1 rows wk dk
    by (simp add: UpdateMinimum_step_def Let_def model2_def coordinate_new_w_def w1 d1)
  have w2: "w model2 = map (\<lambda>i. if i < Suc k then ?new i else w model ! i) [0 ..< n]"
    using k by (intro nth_equalityI) (auto simp: model2_def w1 nth_list_update less_Suc_eq)
  have d2: "delta_w model2 = map (\<lambda>i. if i < Suc k then ?new i - w model ! i else delta_w model ! i) [0 ..< n]"
    using k by (intro nth_equalityI) (auto simp: model2_def d1 nth_list_update less_Suc_eq)
  have p2: "length (precision model2) = n" by (simp add: model2_def p1)
  have l2: "loss_derivative model2 = loss_derivative model" by (simp add: model2_def l1)
  from step obtain lds' dws' where "?f k (Inr (model1, dot, lds, dws))
      = Inr (model2, dot + loss_derivative model ! k * (?new k - w model ! k), lds', dws')"
    by blast
  then have "fold ?f [0 ..< Suc k] (Inr (model, 0, 0, 0))
      = Inr (model2, dot + loss_derivative model ! k * (?new k - w model ! k), lds', dws')"
    using f by simp
  moreover have "dot + loss_derivative model ! k * (?new k - w model ! k)
      = (\<Sum>i < Suc k. loss_derivative model ! i * (?new i - w model ! i))"
    using dt by simp
  ultimately show ?case using w2 d2 p2 l2 by blast
qed

lemma L1_nonneg:
  assumes "nonneg_regularizations regs" "0 \<le> a"
  shows "0 \<le> L1 regs rows wt a"
proof -
  have e: "0 \<le> sqrt a + kEpsilon" using assms by (simp add: kEpsilon_def)
  have s: "0 \<le> sqrt (real ((rows + 1) mod 2 ^ 64))" by simp
  show ?thesis
    using assms(1) e s
    by (auto simp: L1_def Let_def nonneg_regularizations_def nonneg_regularization_def
             intro!: add_nonneg_nonneg divide_nonneg_nonneg mult_nonneg_nonneg)
qed

lemma soft_threshold_branches:
  assumes "0 \<le> t"
  shows "(if B > 0 then max 0 (B - t) else min 0 (B + t)) = spec_soft_threshold B t"
  using assms by (auto simp: spec_soft_threshold_def sgn_real_def max_def min_def)

lemma GetMinimum_spec:
  assumes "nonneg_regularizations regs" "0 \<le> d1m_a d"
  shows "GetMinimum regs d w0 inertia step_multiplier rows =
     (let A = d1m_a d + 4 * L2 regs rows (d1m_a d);
          B = d1m_a d * w0 - step_multiplier * d1m_b d + inertia * A;
          B' = spec_soft_threshold B (2 * L1 regs rows w0 (d1m_a d))
      in if A = 0 then 0 else B' / A)"
proof -
  define A where "A = d1m_a d + 4 * L2 regs rows (d1m_a d)"
  define B where "B = d1m_a d * w0 - step_multiplier * d1m_b d + inertia * A"
  define t where "t = 2 * L1 regs rows w0 (d1m_a d)"
  have "0 \<le> t" using L1_nonneg[OF assms] by (simp add: t_def)
  from soft_threshold_branches[OF this, of B]
  have br: "(if B > 0 then max 0 (B - t) else min 0 (B + t)) = spec_soft_threshold B t" .
  have "GetMinimum regs d w0 inertia step_multiplier rows
       = (if A = 0 then 0 else (if B > 0 then max 0 (B - t) else min 0 (B + t)) / A)"
    by (simp add: GetMinimum_def Let_def A_def B_def t_def mult.commute)
  also have "\<dots> = (if A = 0 then 0 else spec_soft_threshold B t / A)"
    by (simp only: br)
  finally show ?thesis
    by (simp add: Let_def A_def B_def t_def)
qed


lemma coordinate_new_w_spec:
  assumes "nonneg_regularizations regs" "0 \<le> d1m_a (of_j maj ! j)"
  shows "coordinate_new_w regs maj inertia_factor step_multiplier stats model j
       = spec_coordinate_w regs maj inertia_factor step_multiplier stats model j"
  unfolding coordinate_new_w_def spec_coordinate_w_def
  using GetMinimum_spec[OF assms] by (simp add: Let_def)

lemma GetRegularizationLoss_fold:
  assumes "length (of_j maj) = n" "length (w model) = n"
      "n \<le> length (positive_of_j stats)" "n \<le> length (negative_of_j stats)"
  shows "k \<le> n \<Longrightarrow>
     \<exists>r. fold (GetRegularizationLoss_step regs maj model stats) [0 ..< k] (Inr 0) = Inr r"
proof (induction k)
  case 0
  then show ?case by simp
next
  case (Suc k)
  then obtain r where r: "fold (GetRegularizationLoss_step regs maj model stats) [0 ..< k] (Inr 0) = Inr r"
    by auto
  have k: "k < n" using Suc.prems by simp
  have rows: "GetRowCountWithJPresent stats k
      = Inr ((negative_of_j stats ! k + positive_of_j stats ! k) mod 2 ^ 64)"
    using k assms by (intro GetRowCountWithJPresent_ok) auto
  have "\<exists>r'. GetRegularizationLoss_step regs maj model stats k (Inr r) = Inr r'"
    using k assms rows by (simp add: GetRegularizationLoss_step_def Let_def)
  then show ?case using r by simp
qed

lemma GetRegularizationLoss_ok:
  assumes "length (of_j maj) = n" "length (w model) = n"
      "n \<le> length (positive_of_j stats)" "n \<le> length (negative_of_j stats)" "n < 2 ^ 32"
  shows "\<exists>r. GetRegularizationLoss maj regs model stats = Inr r"
  using GetRegularizationLoss_fold[OF assms(1-4), of n regs] assms
  by (simp add: GetRegularizationLoss_def Range_u32_def)

lemma revert_step_fold:
  assumes sizes: "length (w model) = n" "length (delta_w model) = n"
  shows "k \<le> n \<Longrightarrow>
     fold revert_step [0 ..< k] (Inr model)
       = Inr (model\<lparr>w := map (\<lambda>i. if i < k then w model ! i - delta_w model ! i else w model ! i) [0 ..< n],
                    delta_w := map (\<lambda>i. if i < k then 0 else delta_w model ! i) [0 ..< n]\<rparr>)"
proof (induction k)
  case 0
  have "map (\<lambda>i. w model ! i) [0 ..< n] = w model" "map (\<lambda>i. delta_w model ! i) [0 ..< n] = delta_w model"
    using sizes map_nth[of "w model"] map_nth[of "delta_w model"] by simp_all
  then show ?case by simp
next
  case (Suc k)
  then have k: "k < n" by simp
  let ?W = "\<lambda>k. map (\<lambda>i. if i < k then w model ! i - delta_w model ! i else w model ! i) [0 ..< n]"
  let ?D = "\<lambda>k. map (\<lambda>i. if i < k then 0 else delta_w model ! i) [0 ..< n]"
  from Suc have IH: "fold revert_step [0 ..< k] (Inr model) = Inr (model\<lparr>w := ?W k, delta_w := ?D k\<rparr>)"
    by simp
  have W: "(?W k)[k := ?W k ! k - ?D k ! k] = ?W (Suc k)"
    using k by (intro nth_equalityI) (auto simp: nth_list_update less_Suc_eq)
  have D: "(?D k)[k := 0] = ?D (Suc k)"
    using k by (intro nth_equalityI) (auto simp: nth_list_update less_Suc_eq)
  have "revert_step k (Inr (model\<lparr>w := ?W k, delta_w := ?D k\<rparr>))
      = Inr (model\<lparr>w := (?W k)[k := ?W k ! k - ?D k ! k], delta_w := (?D k)[k := 0]\<rparr>)"
    using k by (simp add: revert_step_def)
  then have "revert_step k (Inr (model\<lparr>w := ?W k, delta_w := ?D k\<rparr>))
      = Inr (model\<lparr>w := ?W (Suc k), delta_w := ?D (Suc k)\<rparr>)"
    by (simp only: W D)
  with IH show ?case by simp
qed

lemma GetRegularizationLoss_cong:
  "w m1 = w m2 \<Longrightarrow> GetRegularizationLoss maj regs m1 stats = GetRegularizationLoss maj regs m2 stats"
proof -
  assume e: "w m1 = w m2"
  have "GetRegularizationLoss_step regs maj m1 stats = GetRegularizationLoss_step regs maj m2 stats"
    by (intro ext) (auto simp: GetRegularizationLoss_step_def e split: sum.splits)
  then show ?thesis by (simp add: GetRegularizationLoss_def e)
qed


lemma UpdateMinimum_unfold:
  assumes "length (of_j maj) = GetSize model0" "synced_with_weights model0"
    and "model1 = model0\<lparr>synced_with_weights := False,
                         iteration_no := (iteration_no model0 + 1) mod 2 ^ 32\<rparr>"
    and "GetRegularizationLoss maj regs model1 stats = Inr reg_loss"
  shows "UpdateMinimum maj regs inertia_factor step_multiplier stats allow_undo model0 =
     (if allow_undo \<and> gt_inf (log_loss maj + reg_loss) (prev_total_loss model0)
      then
        (case fold revert_step (Range_u32 (length (of_j maj)))
                (Inr (model1\<lparr>prev_total_loss := Infinity\<rparr>)) of
           Inl e \<Rightarrow> Inl e
         | Inr model' \<Rightarrow> Inr (model', empty_log\<lparr>undo_iteration := True\<rparr>))
      else
        (case UpdateMinimum_loop regs maj inertia_factor step_multiplier stats model1 of
           Inl e \<Rightarrow> Inl e
         | Inr (model, dot, lds, dws) \<Rightarrow>
             if dot > 0
             then
               (case fold revert_step (Range_u32 (length (of_j maj))) (Inr model) of
                  Inl e \<Rightarrow> Inl e
                | Inr model' \<Rightarrow>
                    Inr (model',
                         (if sqrt (lds * dws) \<noteq> 0
                          then empty_log\<lparr>dot_loss_derivative_vs_delta_weight := Some dot,
                                         cos_angle_loss_derivative_vs_delta_weight :=
                                           Some (dot / sqrt (lds * dws))\<rparr>
                          else empty_log\<lparr>dot_loss_derivative_vs_delta_weight := Some dot\<rparr>)
                         \<lparr>restart_iteration := True\<rparr>))
             else
               Inr (model,
                    if sqrt (lds * dws) \<noteq> 0
                    then empty_log\<lparr>dot_loss_derivative_vs_delta_weight := Some dot,
                                   cos_angle_loss_derivative_vs_delta_weight :=
                                     Some (dot / sqrt (lds * dws))\<rparr>
                    else empty_log\<lparr>dot_loss_derivative_vs_delta_weight := Some dot\<rparr>)))"
proof -
  have "prev_total_loss model1 = prev_total_loss model0" using assms(3) by simp
  then show ?thesis
    using assms(1,2,4) unfolding UpdateMinimum_def assms(3)[symmetric]
    by (simp add: Let_def split: sum.splits prod.splits)
qed

text \<open>
  Claim C1. \<open>Majorizer::UpdateMinimum\<close> returns for every model that is synced and has
  per-J vectors of one length. Unless the step is undone, the coordinate loop computes for
  every J the weight \<open>w_new = B' / A\<close> (0 when \<open>A = 0\<close>) with \<open>A = a + 4 * L2\<close>,
  \<open>B = a * w0 - step_multiplier * b + inertia_factor * delta_w_prev * A\<close> and \<open>B'\<close> the soft
  threshold of \<open>B\<close> by \<open>2 * L1\<close>; the model that is returned holds \<open>w_new\<close> as the weight and
  \<open>w_new - w0\<close> as the delta of J. The one exception is the inertia restart: when the
  product of the stored loss derivative with these deltas is positive, the weights go
  back to \<open>w0\<close> and the deltas to 0. The regularization fields are non-negative, as the
  configuration check demands, and so is every \<open>a\<close> (a sum of non-negative terms).
\<close>

theorem UpdateMinimum_coordinate_update:
  assumes sizes: "length (of_j maj) = n" "length (w model) = n" "length (delta_w model) = n"
      "length (precision model) = n" "length (loss_derivative model) = n"
      "n \<le> length (positive_of_j stats)" "n \<le> length (negative_of_j stats)"
    and n: "n < 2 ^ 32"
    and regs: "nonneg_regularizations regs"
    and a_nonneg: "\<forall>j < n. 0 \<le> d1m_a (of_j maj ! j)"
    and synced: "synced_with_weights model"
  shows "\<exists>model' lg reg_loss.
     GetRegularizationLoss maj regs model stats = Inr reg_loss
     \<and> UpdateMinimum maj regs inertia_factor step_multiplier stats allow_undo model = Inr (model', lg)
     \<and> (undo_iteration lg \<longleftrightarrow> allow_undo \<and> gt_inf (log_loss maj + reg_loss) (prev_total_loss model))
     \<and> (\<not> undo_iteration lg \<longrightarrow>
          (restart_iteration lg \<longleftrightarrow>
             (\<Sum>j < n. loss_derivative model ! j
                 * (spec_coordinate_w regs maj inertia_factor step_multiplier stats model j - w model ! j)) > 0)
          \<and> (\<forall>j < n.
                if restart_iteration lg
                then w model' ! j = w model ! j \<and> delta_w model' ! j = 0
                else w model' ! j = spec_coordinate_w regs maj inertia_factor step_multiplier stats model j
                   \<and> delta_w model' ! j
                       = spec_coordinate_w regs maj inertia_factor step_multiplier stats model j - w model ! j))"
proof -
  let ?spec = "spec_coordinate_w regs maj inertia_factor step_multiplier stats model"
  define model1 where "model1 = model\<lparr>synced_with_weights := False,
                             iteration_no := (iteration_no model + 1) mod 2 ^ 32\<rparr>"
  let ?new = "coordinate_new_w regs maj inertia_factor step_multiplier stats model1"
  obtain reg_loss where reg: "GetRegularizationLoss maj regs model stats = Inr reg_loss"
    using GetRegularizationLoss_ok[OF sizes(1,2,6,7) n] by blast
  have reg1: "GetRegularizationLoss maj regs model1 stats = Inr reg_loss"
    using GetRegularizationLoss_cong[of model1 model maj regs stats] reg by (simp add: model1_def)
  have sizes1: "length (of_j maj) = n" "length (w model1) = n" "length (delta_w model1) = n"
      "length (precision model1) = n" "length (loss_derivative model1) = n"
      "n \<le> length (positive_of_j stats)" "n \<le> length (negative_of_j stats)"
    using sizes by (simp_all add: model1_def)
  have new: "?new j = ?spec j" if "j < n" for j
  proof -
    have "?new j = coordinate_new_w regs maj inertia_factor step_multiplier stats model j"
      by (simp add: coordinate_new_w_def model1_def)
    then show ?thesis using coordinate_new_w_spec[OF regs] a_nonneg that by simp
  qed
  have chk: "length (of_j maj) = GetSize model" using sizes n by (simp add: GetSize_def)
  note unf = UpdateMinimum_unfold[OF chk synced model1_def reg1, of inertia_factor step_multiplier allow_undo]
  have rng: "Range_u32 (length (of_j maj)) = [0 ..< n]" using sizes n by (simp add: Range_u32_def)
  show ?thesis
  proof (cases "allow_undo \<and> gt_inf (log_loss maj + reg_loss) (prev_total_loss model)")
    case True
    define model2 where "model2 = model1\<lparr>prev_total_loss := Infinity\<rparr>"
    have s2: "length (w model2) = n" "length (delta_w model2) = n"
      using sizes1 by (simp_all add: model2_def)
    from revert_step_fold[OF s2, of n] obtain model' where
      rev: "fold revert_step [0 ..< n] (Inr model2) = Inr model'" by simp
    have run: "UpdateMinimum maj regs inertia_factor step_multiplier stats allow_undo model
         = Inr (model', empty_log\<lparr>undo_iteration := True\<rparr>)"
      unfolding unf if_P[OF True] rng using rev[unfolded model2_def] by simp
    show ?thesis using reg run True
      by (intro exI[of _ model'] exI[of _ "empty_log\<lparr>undo_iteration := True\<rparr>"] exI[of _ reg_loss]) simp
  next
    case False
    from UpdateMinimum_step_fold[OF sizes1, of n regs inertia_factor step_multiplier]
    obtain model2 dot lds dws where
      f: "fold (UpdateMinimum_step regs maj inertia_factor step_multiplier stats) [0 ..< n] (Inr (model1, 0, 0, 0))
         = Inr (model2, dot, lds, dws)"
      and w2: "w model2 = map (\<lambda>i. if i < n then ?new i else w model1 ! i) [0 ..< n]"
      and d2: "delta_w model2 = map (\<lambda>i. if i < n then ?new i - w model1 ! i else delta_w model1 ! i) [0 ..< n]"
      and dt: "dot = (\<Sum>i < n. loss_derivative model1 ! i * (?new i - w model1 ! i))"
      by auto
    have loop: "UpdateMinimum_loop regs maj inertia_factor step_multiplier stats model1
         = Inr (model2, dot, lds, dws)"
      using f sizes n by (simp add: UpdateMinimum_loop_def Range_u32_def)
    have dot: "dot = (\<Sum>j < n. loss_derivative model ! j * (?spec j - w model ! j))"
      unfolding dt using new by (simp add: model1_def)
    have w2j: "w model2 ! j = ?spec j" and d2j: "delta_w model2 ! j = ?spec j - w model ! j"
      if "j < n" for j
      using that new by (simp_all add: w2 d2 model1_def)
    define lg0 where "lg0 = empty_log\<lparr>dot_loss_derivative_vs_delta_weight := Some dot\<rparr>"
    define lg where "lg = (if sqrt (lds * dws) \<noteq> 0
          then lg0\<lparr>cos_angle_loss_derivative_vs_delta_weight := Some (dot / sqrt (lds * dws))\<rparr>
          else lg0)"
    have lgf: "\<not> undo_iteration lg" "\<not> restart_iteration lg"
      by (simp_all add: lg_def lg0_def empty_log_def)
    show ?thesis
    proof (cases "dot > 0")
      case True
      have s3: "length (w model2) = n" "length (delta_w model2) = n" by (simp_all add: w2 d2)
      define model3 where "model3 =
         model2\<lparr>w := map (\<lambda>i. if i < n then w model2 ! i - delta_w model2 ! i else w model2 ! i) [0 ..< n],
                delta_w := map (\<lambda>i. if i < n then 0 else delta_w model2 ! i) [0 ..< n]\<rparr>"
      have rev: "fold revert_step [0 ..< n] (Inr model2) = Inr model3"
        unfolding model3_def by (rule revert_step_fold[OF s3]) simp
      have run: "UpdateMinimum maj regs inertia_factor step_multiplier stats allow_undo model
           = Inr (model3, lg\<lparr>restart_iteration := True\<rparr>)"
        unfolding unf if_not_P[OF False] loop rng using True rev by (simp add: lg_def lg0_def)
      have reverted: "w model3 ! j = w model ! j \<and> delta_w model3 ! j = 0" if "j < n" for j
        using that w2j[OF that] d2j[OF that] by (simp add: model3_def)
      have flags: "\<not> undo_iteration (lg\<lparr>restart_iteration := True\<rparr>)"
          "restart_iteration (lg\<lparr>restart_iteration := True\<rparr>)"
        using lgf by simp_all
      show ?thesis
        using reg run False True flags reverted dot
        by (intro exI[of _ model3] exI[of _ "lg\<lparr>restart_iteration := True\<rparr>"] exI[of _ reg_loss]) simp
    next
      case nr: False
      have run: "UpdateMinimum maj regs inertia_factor step_multiplier stats allow_undo model
           = Inr (model2, lg)"
        unfolding unf if_not_P[OF False] loop using nr by (simp add: lg_def lg0_def)
      show ?thesis
        using reg run False nr lgf w2j d2j dot
        by (intro exI[of _ model2] exI[of _ lg] exI[of _ reg_loss]) simp
    qed
  qed
qed

theorem UpdateMinimum_coordinate_update_witness:
  "\<exists>model' lg.
     UpdateMinimum ex_maj ex_regs (1/2) 1 ex_stats True ex_model_fresh = Inr (model', lg)
     \<and> \<not> undo_iteration lg \<and> \<not> restart_iteration lg
     \<and> w model' ! 0 = 3/8 \<and> delta_w model' ! 0 = - (5/8)"
proof -
  have sizes: "length (of_j ex_maj) = 1" "length (w ex_model_fresh) = 1"
      "length (delta_w ex_model_fresh) = 1" "length (precision ex_model_fresh) = 1"
      "length (loss_derivative ex_model_fresh) = 1"
      "1 \<le> length (positive_of_j ex_stats)" "1 \<le> length (negative_of_j ex_stats)"
    by (simp_all add: ex_maj_def ex_model_fresh_def ex_stats_def)
  have n: "(1::nat) < 2 ^ 32" by simp
  have regs: "nonneg_regularizations ex_regs"
    by (simp add: ex_regs_def nonneg_regularizations_def nonneg_regularization_def)
  have a: "\<forall>j < 1. 0 \<le> d1m_a (of_j ex_maj ! j)" by (simp add: ex_maj_def)
  have synced: "synced_with_weights ex_model_fresh" by (simp add: ex_model_fresh_def)
  have spec: "spec_coordinate_w ex_regs ex_maj (1/2) 1 ex_stats ex_model_fresh 0 = 3/8"
    by (simp add: spec_coordinate_w_def Let_def ex_maj_def ex_model_fresh_def ex_stats_def
          ex_regs_def L1_def L2_def spec_soft_threshold_def)
  from UpdateMinimum_coordinate_update[OF sizes n regs a synced, of "1/2" 1 True]
  obtain model' lg reg_loss where
    run: "UpdateMinimum ex_maj ex_regs (1/2) 1 ex_stats True ex_model_fresh = Inr (model', lg)"
    and undo: "undo_iteration lg \<longleftrightarrow> True \<and> gt_inf (log_loss ex_maj + reg_loss) (prev_total_loss ex_model_fresh)"
    and rest: "\<not> undo_iteration lg \<longrightarrow>
          (restart_iteration lg \<longleftrightarrow>
             (\<Sum>j < (1::nat). loss_derivative ex_model_fresh ! j
                 * (spec_coordinate_w ex_regs ex_maj (1/2) 1 ex_stats ex_model_fresh j - w ex_model_fresh ! j)) > 0)
          \<and> (\<forall>j < (1::nat).
                if restart_iteration lg
                then w model' ! j = w ex_model_fresh ! j \<and> delta_w model' ! j = 0
                else w model' ! j = spec_coordinate_w ex_regs ex_maj (1/2) 1 ex_stats ex_model_fresh j
                   \<and> delta_w model' ! j
                       = spec_coordinate_w ex_regs ex_maj (1/2) 1 ex_stats ex_model_fresh j - w ex_model_fresh ! j)"
    by blast
  have nu: "\<not> undo_iteration lg" using undo by (simp add: ex_model_fresh_def)
  have nr: "\<not> restart_iteration lg" using rest nu by (simp add: spec) (simp add: ex_model_fresh_def)
  have "w model' ! 0 = 3/8 \<and> delta_w model' ! 0 = - (5/8)"
    using rest nu nr by (simp add: spec) (simp add: ex_model_fresh_def)
  then show ?thesis using run nu nr by blast
qed

section \<open>Undo of a batch step\<close>

subsection \<open>The example pass\<close>











subsection \<open>UpdateMinimum in a pass\<close>




subsection \<open>SyncModelWithWeights\<close>









subsection \<open>The example pass, whole\<close>















section \<open>The regularization pass of SGD\<close>


lemma ApplyRegularization_step_fold:
  assumes sizes: "length (weights sgd) = n" "length (creation_time model) = n"
  shows "k \<le> n \<Longrightarrow>
     fold (ApplyRegularization_step regs model rate) [0 ..< k] (Inr sgd)
       = Inr (sgd\<lparr>weights := map (\<lambda>j. if j < k \<and> eligible_j sgd model j
                                       then spec_regularized_weight rate (l1 (regularization regs))
                                              (l2 (regularization regs)) (weights sgd ! j)
                                       else weights sgd ! j) [0 ..< n]\<rparr>)"
proof (induction k)
  case 0
  have "map (\<lambda>j. weights sgd ! j) [0 ..< n] = weights sgd"
    using sizes map_nth[of "weights sgd"] by simp
  then show ?case by simp
next
  case (Suc k)
  then have k: "k < n" by simp
  let ?v = "\<lambda>j. spec_regularized_weight rate (l1 (regularization regs)) (l2 (regularization regs)) (weights sgd ! j)"
  let ?W = "\<lambda>k. map (\<lambda>j. if j < k \<and> eligible_j sgd model j then ?v j else weights sgd ! j) [0 ..< n]"
  from Suc have IH: "fold (ApplyRegularization_step regs model rate) [0 ..< k] (Inr sgd)
      = Inr (sgd\<lparr>weights := ?W k\<rparr>)" by simp
  have Wk: "?W k ! k = weights sgd ! k" using k by simp
  have upd: "(if eligible_j sgd model k then (?W k)[k := ?v k] else ?W k) = ?W (Suc k)"
  proof (cases "eligible_j sgd model k")
    case True
    have "(?W k)[k := ?v k] = ?W (Suc k)"
      using k True by (intro nth_equalityI) (auto simp: nth_list_update less_Suc_eq)
    with True show ?thesis by simp
  next
    case False
    have "?W k = ?W (Suc k)"
      using k False by (intro nth_equalityI) (auto simp: less_Suc_eq)
    with False show ?thesis by simp
  qed
  have "ApplyRegularization_step regs model rate k (Inr (sgd\<lparr>weights := ?W k\<rparr>))
      = Inr (sgd\<lparr>weights := (if eligible_j sgd model k then (?W k)[k := ?v k] else ?W k)\<rparr>)"
    using k sizes
    by (cases "training_mode sgd")
       (simp_all add: ApplyRegularization_step_def IsFeatureNew_def eligible_j_def
          spec_regularized_weight_def Let_def algebra_simps)
  then have "ApplyRegularization_step regs model rate k (Inr (sgd\<lparr>weights := ?W k\<rparr>))
      = Inr (sgd\<lparr>weights := ?W (Suc k)\<rparr>)"
    by (simp only: upd)
  with IH show ?case by simp
qed

text \<open>
  Claim C9, as amended. The regularization pass that follows a shard updates every
  eligible J by \<open>w_j - eta * (L1 * sign(w_j) + 2 * L2 * w_j)\<close>, clipped to 0 when the sign
  changes, where \<open>eta\<close> is the current decayed learning rate divided by the number of
  training shards; the other weights are unchanged.
\<close>

theorem ApplyRegularization_update:
  assumes sizes: "length (w model) = n" "length (weights sgd) = n" "length (creation_time model) = n"
    and n: "n < 2 ^ 32"
  shows "\<exists>sgd'.
     ApplyRegularization sgd regs model shard_count row_count = Inr sgd'
     \<and> length (weights sgd') = n
     \<and> (\<forall>j < n. weights sgd' ! j =
           (if eligible_j sgd model j
            then spec_regularized_weight (GetLearningRate sgd row_count / real shard_count)
                   (l1 (regularization regs)) (l2 (regularization regs)) (weights sgd ! j)
            else weights sgd ! j))"
proof -
  from ApplyRegularization_step_fold[OF sizes(2,3), of n regs "GetLearningRate sgd row_count / real shard_count"]
  have "ApplyRegularization sgd regs model shard_count row_count
      = Inr (sgd\<lparr>weights := map (\<lambda>j. if j < n \<and> eligible_j sgd model j
           then spec_regularized_weight (GetLearningRate sgd row_count / real shard_count)
                  (l1 (regularization regs)) (l2 (regularization regs)) (weights sgd ! j)
           else weights sgd ! j) [0 ..< n]\<rparr>)"
    using sizes n by (simp add: ApplyRegularization_def Range_u32_def)
  then show ?thesis by auto
qed

theorem ApplyRegularization_update_witness:
  "\<exists>sgd'. ApplyRegularization ex_sgd ex_sgd_regs ex_model 2 4 = Inr sgd' \<and> weights sgd' ! 0 = 7/8"
proof -
  have sizes: "length (w ex_model) = 1" "length (weights ex_sgd) = 1" "length (creation_time ex_model) = 1"
    by (simp_all add: ex_model_def ex_sgd_def)
  have n: "(1::nat) < 2 ^ 32" by simp
  from ApplyRegularization_update[OF sizes n, of ex_sgd_regs 2 4]
  obtain sgd' where run: "ApplyRegularization ex_sgd ex_sgd_regs ex_model 2 4 = Inr sgd'"
    and all: "\<forall>j < (1::nat). weights sgd' ! j =
           (if eligible_j ex_sgd ex_model j
            then spec_regularized_weight (GetLearningRate ex_sgd 4 / real (2::nat))
                   (l1 (regularization ex_sgd_regs)) (l2 (regularization ex_sgd_regs)) (weights ex_sgd ! j)
            else weights ex_sgd ! j)"
    by blast
  from all have "weights sgd' ! 0 = 7/8"
    by (simp add: eligible_j_def spec_regularized_weight_def GetLearningRate_def Sign_def Let_def
          ex_sgd_def ex_sgd_regs_def ex_model_def)
  with run show ?thesis by blast
qed

text \<open>
  The claim as stated takes \<open>eta\<close> to be the decayed learning rate itself. With two
  training shards the pass moves the weight 1 to \<open>7/8\<close>, where that update gives \<open>3/4\<close>.
\<close>

theorem ApplyRegularization_rate_counterexample:
  "ApplyRegularization ex_sgd ex_sgd_regs ex_model 2 4 = Inr (ex_sgd\<lparr>weights := [7/8]\<rparr>)
   \<and> spec_regularized_weight (GetLearningRate ex_sgd 4)
        (l1 (regularization ex_sgd_regs)) (l2 (regularization ex_sgd_regs)) (weights ex_sgd ! 0) = 3/4
   \<and> [7/8] ! 0 \<noteq> (3/4 :: real)"
  by (simp add: ApplyRegularization_def Range_u32_def ApplyRegularization_step_def
        spec_regularized_weight_def GetLearningRate_def Sign_def Let_def
        ex_sgd_def ex_sgd_regs_def ex_model_def)


section \<open>The order of the candidate pairs\<close>


section \<open>PrioritySumIterator (range.h)\<close>

section \<open>Candidate pairs of feature exploration (feature\_exploration.cc)\<close>

lemma psi_take_numeral:
  "psi_take (numeral k) v pq =
     (if \<not> HasNext pq then []
      else (case Next v pq of (p, pq') \<Rightarrow> p # psi_take (pred_numeral k) v pq'))"
  by (simp add: numeral_eq_Suc)

lemma best_js_of_example: "best_js_of [1, 1, 1] [0, 1, 2] = Inr [(1, 2), (1, 1), (1, 0)]"
  by (simp add: best_js_of_def)

lemma PrioritySumIterator_example: "PrioritySumIterator [(1, 2), (1, 1), (1, 0)] = Inr [(2, (0, 1)), (2, (1, 2))]"
  by (simp add: PrioritySumIterator_def Range_u32_def InsertNext_def upt_rec)

lemma candidate_pairs_example: "candidate_pairs 3 [1, 1, 1] [0, 1, 2] = Inr [(0, 1), (1, 2), (0, 2)]"
  unfolding candidate_pairs_def best_js_of_example sum.case PrioritySumIterator_example
  by (simp add: psi_take_numeral Next_def InsertNext_def pq_top_def pq_pop_def HasNext_def)

lemma psi_take_map:
  "psi_take n v pq = map (\<lambda>e. (snd (v ! fst (snd e)), snd (v ! snd (snd e)))) (psi_take_entries n v pq)"
  by (induction n arbitrary: pq) (simp_all add: HasNext_def Next_def Let_def)

lemma pq_top_Max: "pq \<noteq> [] \<Longrightarrow> pq_top pq = Max (set pq)"
proof (cases pq)
  case Nil
  assume "pq \<noteq> []"
  with Nil show ?thesis by simp
next
  case (Cons a list)
  have "Max (set (a # list)) = fold max list a" by (rule Max.set_eq_fold)
  with Cons show ?thesis by (simp add: pq_top_def)
qed

lemma pq_top_in: "pq \<noteq> [] \<Longrightarrow> pq_top pq \<in> set pq"
  using Max_in[of "set pq"] by (simp add: pq_top_Max)

lemma pq_top_ge: "e \<in> set pq \<Longrightarrow> e \<le> pq_top pq"
proof -
  assume e: "e \<in> set pq"
  then have "pq \<noteq> []" by auto
  then have "pq_top pq = Max (set pq)" by (rule pq_top_Max)
  with Max_ge[of "set pq" e] e show ?thesis by simp
qed

lemma prod_le_fst: "(a :: real \<times> (nat \<times> nat)) \<le> b \<Longrightarrow> fst a \<le> fst b"
  by (auto simp: less_eq_prod_def)

lemma InsertNext_inv:
  assumes "psi_inv v pq" "r \<le> c" "c < length v" "length v < 2 ^ 32"
  shows "psi_inv v (InsertNext v (r, c) pq)"
proof -
  from assms(3,4) have "Suc c mod 2 ^ 32 = Suc c" by simp
  with assms(1,2) show ?thesis
    by (auto simp: InsertNext_def psi_inv_def Let_def)
qed

lemma InsertNext_bound:
  assumes "\<forall>e \<in> set pq. fst e \<le> B" "r < c" "c < length v" "length v < 2 ^ 32"
    and desc: "\<forall>i j. i < j \<and> j < length v \<longrightarrow> fst (v ! j) \<le> fst (v ! i)"
    and B: "fst (v ! r) + fst (v ! c) \<le> B"
  shows "\<forall>e \<in> set (InsertNext v (r, c) pq). fst e \<le> B"
proof -
  from assms(3,4) have m: "Suc c mod 2 ^ 32 = Suc c" by simp
  show ?thesis
  proof (cases "Suc c < length v")
    case True
    with desc have "fst (v ! Suc c) \<le> fst (v ! c)" by simp
    with B have "fst (v ! r) + fst (v ! Suc c) \<le> B" by simp
    with assms(1) True m show ?thesis by (auto simp: InsertNext_def Let_def)
  next
    case False
    with assms(1) m show ?thesis by (simp add: InsertNext_def Let_def)
  qed
qed

lemma psi_inv_remove1: "psi_inv v pq \<Longrightarrow> psi_inv v (remove1 e pq)"
  by (auto simp: psi_inv_def dest: notin_set_remove1)

lemma psi_take_entries_sorted:
  assumes len: "length v < 2 ^ 32"
    and desc: "\<forall>i j. i < j \<and> j < length v \<longrightarrow> fst (v ! j) \<le> fst (v ! i)"
  shows "psi_inv v pq \<Longrightarrow> \<forall>e \<in> set pq. fst e \<le> B \<Longrightarrow>
     sorted_wrt (\<lambda>x y. fst x \<ge> fst y) (psi_take_entries n v pq)
     \<and> (\<forall>e \<in> set (psi_take_entries n v pq).
           fst e \<le> B \<and> fst (snd e) < snd (snd e) \<and> snd (snd e) < length v
           \<and> fst e = fst (v ! fst (snd e)) + fst (v ! snd (snd e)))"
proof (induction n arbitrary: pq B)
  case 0
  then show ?case by simp
next
  case (Suc n)
  show ?case
  proof (cases "pq = []")
    case True
    then show ?thesis by simp
  next
    case False
    let ?e = "pq_top pq"
    let ?pq' = "InsertNext v (snd ?e) (pq_pop pq)"
    have ein: "?e \<in> set pq" using False by (rule pq_top_in)
    with Suc.prems(1) have e: "fst (snd ?e) < snd (snd ?e)" "snd (snd ?e) < length v"
        "fst ?e = fst (v ! fst (snd ?e)) + fst (v ! snd (snd ?e))"
      by (auto simp: psi_inv_def)
    have eB: "fst ?e \<le> B" using ein Suc.prems(2) by blast
    have inv1: "psi_inv v (pq_pop pq)"
      unfolding pq_pop_def using Suc.prems(1) by (rule psi_inv_remove1)
    have b1: "\<forall>x \<in> set (pq_pop pq). fst x \<le> fst ?e"
    proof
      fix x assume "x \<in> set (pq_pop pq)"
      then have "x \<in> set pq" using set_remove1_subset[of "pq_top pq" pq] by (auto simp: pq_pop_def)
      then have "x \<le> ?e" by (rule pq_top_ge)
      then show "fst x \<le> fst ?e" by (rule prod_le_fst)
    qed
    have inv': "psi_inv v ?pq'"
      using InsertNext_inv[OF inv1, of "fst (snd ?e)" "snd (snd ?e)"] e len by simp
    have b': "\<forall>x \<in> set ?pq'. fst x \<le> fst ?e"
      using InsertNext_bound[OF b1, of "fst (snd ?e)" "snd (snd ?e)" v] e len desc by simp
    from Suc.IH[OF inv' b'] have IH:
      "sorted_wrt (\<lambda>x y. fst x \<ge> fst y) (psi_take_entries n v ?pq')"
      "\<forall>x \<in> set (psi_take_entries n v ?pq').
           fst x \<le> fst ?e \<and> fst (snd x) < snd (snd x) \<and> snd (snd x) < length v
           \<and> fst x = fst (v ! fst (snd x)) + fst (v ! snd (snd x))"
      by blast+
    have eq: "psi_take_entries (Suc n) v pq = ?e # psi_take_entries n v ?pq'"
      using False by simp
    show ?thesis
    proof -
      have s: "sorted_wrt (\<lambda>x y. fst x \<ge> fst y) (?e # psi_take_entries n v ?pq')"
        using IH by auto
      have "\<forall>x \<in> set (?e # psi_take_entries n v ?pq').
           fst x \<le> B \<and> fst (snd x) < snd (snd x) \<and> snd (snd x) < length v
           \<and> fst x = fst (v ! fst (snd x)) + fst (v ! snd (snd x))"
      proof
        fix x assume "x \<in> set (?e # psi_take_entries n v ?pq')"
        then consider "x = ?e" | "x \<in> set (psi_take_entries n v ?pq')" by auto
        then show "fst x \<le> B \<and> fst (snd x) < snd (snd x) \<and> snd (snd x) < length v
           \<and> fst x = fst (v ! fst (snd x)) + fst (v ! snd (snd x))"
        proof cases
          case 1
          with e eB show ?thesis by simp
        next
          case 2
          with IH(2) have "fst x \<le> fst ?e" "fst (snd x) < snd (snd x)" "snd (snd x) < length v"
             "fst x = fst (v ! fst (snd x)) + fst (v ! snd (snd x))" by blast+
          with eB show ?thesis by linarith
        qed
      qed
      with s show ?thesis unfolding eq by blast
    qed
  qed
qed

lemma PrioritySumIterator_inv:
  assumes len: "length v < 2 ^ 32"
  shows "k \<le> length v \<Longrightarrow> psi_inv v (fold (\<lambda>j. InsertNext v (j, j)) [0 ..< k] [])"
proof (induction k)
  case 0
  then show ?case by (simp add: psi_inv_def)
next
  case (Suc k)
  then have "psi_inv v (fold (\<lambda>j. InsertNext v (j, j)) [0 ..< k] [])" by simp
  from InsertNext_inv[OF this, of k k] Suc.prems len show ?case by simp
qed


lemma psi_frontier_set:
  "set (psi_frontier v es) =
     {(fst (v ! r) + fst (v ! c), (r, c)) | r c. r < length v \<and> c = r + 1 + psi_row_count r es \<and> c < length v}"
  by (auto simp add: psi_frontier_def Let_def)

lemma psi_row_count_snoc:
  "psi_row_count r' (es @ [e]) = psi_row_count r' es + (if fst (snd e) = r' then 1 else 0)"
  by (simp add: psi_row_count_def)

lemma InsertNext_eq:
  assumes "c < length v" "length v < 2 ^ 32"
  shows "InsertNext v (r, c) pq =
     (if Suc c < length v then pq @ [(fst (v ! r) + fst (v ! Suc c), (r, Suc c))] else pq)"
proof -
  from assms have "Suc c mod 2 ^ 32 = Suc c" by simp
  then show ?thesis by (auto simp add: InsertNext_def Let_def)
qed

lemma PrioritySumIterator_frontier:
  assumes len: "length v < 2 ^ 32"
  shows "k \<le> length v \<Longrightarrow>
     distinct (fold (\<lambda>j. InsertNext v (j, j)) [0 ..< k] [])
     \<and> set (fold (\<lambda>j. InsertNext v (j, j)) [0 ..< k] [])
         = {(fst (v ! r) + fst (v ! Suc r), (r, Suc r)) | r. r < k \<and> Suc r < length v}"
proof (induction k)
  case 0
  then show ?case by simp
next
  case (Suc k)
  let ?pq = "fold (\<lambda>j. InsertNext v (j, j)) [0 ..< k] []"
  have IH: "distinct ?pq"
    "set ?pq = {(fst (v ! r) + fst (v ! Suc r), (r, Suc r)) | r. r < k \<and> Suc r < length v}"
    using Suc by simp_all
  have k: "k < length v" using Suc.prems by simp
  have f: "fold (\<lambda>j. InsertNext v (j, j)) [0 ..< Suc k] [] = InsertNext v (k, k) ?pq" by simp
  show ?case
  proof (cases "Suc k < length v")
    case True
    have e: "InsertNext v (k, k) ?pq = ?pq @ [(fst (v ! k) + fst (v ! Suc k), (k, Suc k))]"
      using InsertNext_eq[OF k len] True by simp
    have new: "(fst (v ! k) + fst (v ! Suc k), (k, Suc k)) \<notin> set ?pq" using IH(2) by auto
    have "set (?pq @ [(fst (v ! k) + fst (v ! Suc k), (k, Suc k))])
        = {(fst (v ! r) + fst (v ! Suc r), (r, Suc r)) | r. r < Suc k \<and> Suc r < length v}"
      using IH(2) True by (auto simp add: less_Suc_eq)
    then show ?thesis unfolding f e using IH(1) new by simp
  next
    case False
    have e: "InsertNext v (k, k) ?pq = ?pq" using InsertNext_eq[OF k len] False by simp
    have "{(fst (v ! r) + fst (v ! Suc r), (r, Suc r)) | r. r < Suc k \<and> Suc r < length v}
        = {(fst (v ! r) + fst (v ! Suc r), (r, Suc r)) | r. r < k \<and> Suc r < length v}"
      using False by (auto simp add: less_Suc_eq)
    then show ?thesis unfolding f e using IH by simp
  qed
qed

lemma frontier_step:
  assumes len: "length v < 2 ^ 32"
    and d: "distinct pq" and s: "set pq = set (psi_frontier v es)" and ne: "pq \<noteq> []"
  shows "distinct (InsertNext v (snd (pq_top pq)) (pq_pop pq))
       \<and> set (InsertNext v (snd (pq_top pq)) (pq_pop pq)) = set (psi_frontier v (es @ [pq_top pq]))"
proof -
  let ?e = "pq_top pq"
  have ein: "?e \<in> set pq" using ne by (rule pq_top_in)
  then obtain r c where e: "?e = (fst (v ! r) + fst (v ! c), (r, c))"
    and r: "r < length v" and c: "c = r + 1 + psi_row_count r es" and cl: "c < length v"
    unfolding s psi_frontier_set by blast
  have rc: "psi_row_count r' (es @ [?e]) = (if r' = r then psi_row_count r es + 1 else psi_row_count r' es)" for r'
    unfolding psi_row_count_snoc e by simp
  have dp: "distinct (pq_pop pq)" using d by (simp add: pq_pop_def)
  have sp: "set (pq_pop pq) = set pq - {?e}" using d by (simp add: pq_pop_def)
  have others: "set pq - {?e}
      = {(fst (v ! r') + fst (v ! c'), (r', c')) | r' c'.
            r' < length v \<and> c' = r' + 1 + psi_row_count r' es \<and> c' < length v \<and> r' \<noteq> r}"
    unfolding s psi_frontier_set e c by auto
  have ins: "InsertNext v (snd ?e) (pq_pop pq)
      = (if Suc c < length v then pq_pop pq @ [(fst (v ! r) + fst (v ! Suc c), (r, Suc c))]
         else pq_pop pq)"
    using InsertNext_eq[OF cl len, of r "pq_pop pq"] e by simp
  have new: "(fst (v ! r) + fst (v ! Suc c), (r, Suc c)) \<notin> set (pq_pop pq)"
    unfolding sp others by auto
  have tgt: "set (psi_frontier v (es @ [?e]))
      = (set pq - {?e}) \<union> (if Suc c < length v then {(fst (v ! r) + fst (v ! Suc c), (r, Suc c))} else {})"
  proof (rule set_eqI, rule iffI)
    fix x assume "x \<in> set (psi_frontier v (es @ [?e]))"
    then obtain r' c' where x: "x = (fst (v ! r') + fst (v ! c'), (r', c'))" "r' < length v"
        "c' = r' + 1 + psi_row_count r' (es @ [?e])" "c' < length v"
      unfolding psi_frontier_set by blast
    show "x \<in> (set pq - {?e}) \<union> (if Suc c < length v then {(fst (v ! r) + fst (v ! Suc c), (r, Suc c))} else {})"
    proof (cases "r' = r")
      case True
      then have "c' = Suc c" using x(3) rc c by simp
      then show ?thesis using x True by simp
    next
      case False
      then have "c' = r' + 1 + psi_row_count r' es" using x(3) rc by simp
      then have "x \<in> set pq - {?e}" unfolding others using x False by blast
      then show ?thesis by simp
    qed
  next
    fix x assume a: "x \<in> (set pq - {?e}) \<union> (if Suc c < length v then {(fst (v ! r) + fst (v ! Suc c), (r, Suc c))} else {})"
    show "x \<in> set (psi_frontier v (es @ [?e]))"
    proof (cases "x \<in> set pq - {?e}")
      case True
      then obtain r' c' where x: "x = (fst (v ! r') + fst (v ! c'), (r', c'))" "r' < length v"
        "c' = r' + 1 + psi_row_count r' es" "c' < length v" "r' \<noteq> r"
        unfolding others by blast
      then have "c' = r' + 1 + psi_row_count r' (es @ [?e])" using rc by simp
      then show ?thesis unfolding psi_frontier_set using x by blast
    next
      case False
      then have x: "Suc c < length v" "x = (fst (v ! r) + fst (v ! Suc c), (r, Suc c))"
        using a by (auto split: if_splits)
      have "Suc c = r + 1 + psi_row_count r (es @ [?e])" using rc c by simp
      then show ?thesis unfolding psi_frontier_set using x r by blast
    qed
  qed
  show ?thesis
  proof (cases "Suc c < length v")
    case True
    then show ?thesis unfolding ins tgt using dp new sp by simp
  next
    case False
    then show ?thesis unfolding ins tgt using dp sp by simp
  qed
qed

lemma psi_take_entries_frontier:
  assumes len: "length v < 2 ^ 32"
  shows "distinct pq \<Longrightarrow> set pq = set (psi_frontier v es) \<Longrightarrow>
     (\<forall>k < length (psi_take_entries n v pq).
         psi_take_entries n v pq ! k
           = pq_top (psi_frontier v (es @ take k (psi_take_entries n v pq))))
     \<and> (length (psi_take_entries n v pq) < n \<longrightarrow> psi_frontier v (es @ psi_take_entries n v pq) = [])"
proof (induction n arbitrary: pq es)
  case 0
  then show ?case by simp
next
  case (Suc n)
  show ?case
  proof (cases "pq = []")
    case True
    then have "set (psi_frontier v es) = {}" using Suc.prems(2) by simp
    then show ?thesis using True by simp
  next
    case False
    let ?e = "pq_top pq"
    let ?pq' = "InsertNext v (snd ?e) (pq_pop pq)"
    let ?out = "psi_take_entries n v ?pq'"
    have eq: "psi_take_entries (Suc n) v pq = ?e # ?out" using False by simp
    from frontier_step[OF len Suc.prems False]
    have d': "distinct ?pq'" and s': "set ?pq' = set (psi_frontier v (es @ [?e]))" by blast+
    note IH = Suc.IH[OF d' s']
    have fne: "psi_frontier v es \<noteq> []" using False Suc.prems(2) by auto
    have top: "?e = pq_top (psi_frontier v es)"
      using pq_top_Max[OF False] pq_top_Max[OF fne] Suc.prems(2) by simp
    have nth: "(?e # ?out) ! k = pq_top (psi_frontier v (es @ take k (?e # ?out)))"
      if "k < length (?e # ?out)" for k
    proof (cases k)
      case 0
      then show ?thesis using top by simp
    next
      case (Suc k')
      then have "k' < length ?out" using that by simp
      then have "?out ! k' = pq_top (psi_frontier v ((es @ [?e]) @ take k' ?out))" using IH by blast
      then show ?thesis using Suc by simp
    qed
    have fin: "psi_frontier v (es @ ?e # ?out) = []" if "length (?e # ?out) < Suc n"
    proof -
      have "length ?out < n" using that by simp
      then have "psi_frontier v ((es @ [?e]) @ ?out) = []" using IH by blast
      then show ?thesis by simp
    qed
    show ?thesis unfolding eq using nth fin by blast
  qed
qed

lemma psi_frontier_init:
  assumes len: "length v < 2 ^ 32"
  shows "distinct (fold (\<lambda>j. InsertNext v (j, j)) [0 ..< length v] [])"
    and "set (fold (\<lambda>j. InsertNext v (j, j)) [0 ..< length v] []) = set (psi_frontier v [])"
proof -
  note P = PrioritySumIterator_frontier[OF len, of "length v"]
  show "distinct (fold (\<lambda>j. InsertNext v (j, j)) [0 ..< length v] [])" using P by simp
  have "set (psi_frontier v [])
      = {(fst (v ! r) + fst (v ! Suc r), (r, Suc r)) | r. r < length v \<and> Suc r < length v}"
    unfolding psi_frontier_set by (auto simp add: psi_row_count_def)
  then show "set (fold (\<lambda>j. InsertNext v (j, j)) [0 ..< length v] []) = set (psi_frontier v [])"
    using P by simp
qed

lemma best_js_of_example2: "best_js_of [3, 1, 2] [0, 1, 2] = Inr [(3, 0), (2, 2), (1, 1)]"
  by (simp add: best_js_of_def)

lemma PrioritySumIterator_example2:
  "PrioritySumIterator [(3, 0), (2, 2), (1, 1)] = Inr [(5, (0, 1)), (3, (1, 2))]"
  by (simp add: PrioritySumIterator_def Range_u32_def InsertNext_def upt_rec)

lemma candidate_pairs_example2: "candidate_pairs 3 [3, 1, 2] [0, 1, 2] = Inr [(0, 2), (0, 1), (1, 2)]"
  unfolding candidate_pairs_def best_js_of_example2 sum.case PrioritySumIterator_example2
  by (simp add: psi_take_numeral Next_def InsertNext_def pq_top_def pq_pop_def HasNext_def)

lemma psi_frontier_example2: "pq_top (psi_frontier [(3, 0), (2, 2), (1, 1)] []) = (5, (0, 1))"
  by (simp add: psi_frontier_def psi_row_count_def pq_top_def upt_rec Let_def)

text \<open>
  Claim C8, as amended. The candidate pairs of exploration have \<open>j1 < j2\<close> and come in
  non-increasing order of \<open>score[j1] + score[j2]\<close>. The pair at step \<open>k\<close> is that of the
  entry \<open>es ! k\<close>, and this entry is the top of a max-heap on \<open>(sum, (row, column))\<close> that
  holds the entries next in their rows after the \<open>k\<close> entries before it; rows and columns
  are positions in the list \<open>v\<close> of \<open>(score, J)\<close> sorted from the greatest to the least. So
  among the entries of equal sum that are next in their rows at the same time the one
  with the greatest \<open>(row, column)\<close> comes first. The pairs end before \<open>n\<close> only when no
  entry is left.
\<close>

theorem candidate_pairs_order:
  assumes dist: "distinct all_js" and ne: "all_js \<noteq> []" and len: "length all_js < 2 ^ 32"
    and rng: "\<forall>j \<in> set all_js. j < length j_to_score"
  shows "\<exists>v es cs. best_js_of j_to_score all_js = Inr v
           \<and> candidate_pairs n j_to_score all_js = Inr cs
           \<and> (\<forall>p \<in> set cs. fst p < snd p)
           \<and> sorted_wrt (\<lambda>p q. pair_score j_to_score p \<ge> pair_score j_to_score q) cs
           \<and> length es = length cs
           \<and> (\<forall>k < length cs.
                 cs ! k = (\<lambda>(j1, j2). if j1 > j2 then (j2, j1) else (j1, j2))
                            (snd (v ! fst (snd (es ! k))), snd (v ! snd (snd (es ! k))))
                 \<and> pair_score j_to_score (cs ! k) = fst (es ! k)
                 \<and> es ! k = pq_top (psi_frontier v (take k es)))
           \<and> (length cs < n \<longrightarrow> psi_frontier v es = [])"
proof -
  let ?f = "\<lambda>j. (j_to_score ! j, j)"
  define v where "v = rev (sort (map ?f all_js))"
  have best: "best_js_of j_to_score all_js = Inr v"
    using rng by (simp add: best_js_of_def v_def list_all_iff)
  have lv: "length v = length all_js" by (simp add: v_def)
  have vne: "v \<noteq> []" using ne lv by auto
  have lv32: "length v < 2 ^ 32" using len lv by simp
  have setv: "set v = ?f ` set all_js" by (simp add: v_def)
  have fs: "fst x = j_to_score ! snd x" if "x \<in> set v" for x
    using that setv by auto
  have "inj_on ?f (set all_js)" by (auto simp: inj_on_def)
  with dist have "distinct (map ?f all_js)" by (simp add: distinct_map)
  then have dv: "distinct v" by (simp add: v_def)
  have "inj_on snd (set v)" using setv by (auto simp: inj_on_def)
  with dv have dsnd: "distinct (map snd v)" by (simp add: distinct_map)
  have "sorted (rev v)" by (simp add: v_def)
  then have desc0: "\<forall>i j. i \<le> j \<longrightarrow> j < length v \<longrightarrow> v ! j \<le> v ! i"
    by (simp add: sorted_rev_iff_nth_mono)
  have desc: "\<forall>i j. i < j \<and> j < length v \<longrightarrow> fst (v ! j) \<le> fst (v ! i)"
  proof (intro allI impI)
    fix i j assume "i < j \<and> j < length v"
    with desc0 have "v ! j \<le> v ! i" by simp
    then show "fst (v ! j) \<le> fst (v ! i)" by (auto simp: less_eq_prod_def)
  qed
  define pq where "pq = fold (\<lambda>j. InsertNext v (j, j)) [0 ..< length v] []"
  have init: "PrioritySumIterator v = Inr pq"
    using vne lv32 by (simp add: PrioritySumIterator_def Range_u32_def pq_def)
  have inv: "psi_inv v pq"
    unfolding pq_def by (rule PrioritySumIterator_inv[OF lv32]) simp
  define B where "B = Max (insert 0 (fst ` set pq))"
  have bnd: "\<forall>e \<in> set pq. fst e \<le> B"
    unfolding B_def by (auto intro!: Max_ge)
  define es where "es = psi_take_entries n v pq"
  from psi_take_entries_sorted[OF lv32 desc inv bnd, of n]
  have srt: "sorted_wrt (\<lambda>x y. fst x \<ge> fst y) es"
    and ent: "\<forall>e \<in> set es. fst (snd e) < snd (snd e) \<and> snd (snd e) < length v
                 \<and> fst e = fst (v ! fst (snd e)) + fst (v ! snd (snd e))"
    unfolding es_def by blast+
  let ?sw = "\<lambda>(j1, j2). if j1 > j2 then (j2, j1) else (j1 :: nat, j2 :: nat)"
  let ?pr = "\<lambda>e :: psi_entry. (snd (v ! fst (snd e)), snd (v ! snd (snd e)))"
  define cs where "cs = map ?sw (map ?pr es)"
  have run: "candidate_pairs n j_to_score all_js = Inr cs"
    by (simp add: candidate_pairs_def best init psi_take_map cs_def es_def)
  have key: "fst (?sw (?pr e)) < snd (?sw (?pr e)) \<and> pair_score j_to_score (?sw (?pr e)) = fst e"
    if "e \<in> set es" for e
  proof -
    from ent that have rc: "fst (snd e) < snd (snd e)" "snd (snd e) < length v"
      and sum: "fst e = fst (v ! fst (snd e)) + fst (v ! snd (snd e))" by blast+
    have r: "fst (snd e) < length v" using rc by simp
    have "(map snd v ! fst (snd e) = map snd v ! snd (snd e)) = (fst (snd e) = snd (snd e))"
      using dsnd rc r by (intro nth_eq_iff_index_eq) simp_all
    then have ne: "snd (v ! fst (snd e)) \<noteq> snd (v ! snd (snd e))"
      using rc r by simp
    have "fst (v ! fst (snd e)) = j_to_score ! snd (v ! fst (snd e))"
         "fst (v ! snd (snd e)) = j_to_score ! snd (v ! snd (snd e))"
      using fs r rc by simp_all
    with sum ne show ?thesis by (auto simp: pair_score_def)
  qed
  have lt: "\<forall>p \<in> set cs. fst p < snd p"
  proof
    fix p assume "p \<in> set cs"
    then obtain e where "e \<in> set es" "p = ?sw (?pr e)"
      unfolding cs_def by (auto simp del: split_paired_All)
    with key[of e] show "fst p < snd p" by simp
  qed
  have "map (pair_score j_to_score) cs = map fst es"
    unfolding cs_def map_map by (rule map_cong[OF refl]) (use key in simp)
  moreover have "sorted_wrt (\<ge>) (map fst es)"
    using srt by (simp add: sorted_wrt_map)
  ultimately have "sorted_wrt (\<ge>) (map (pair_score j_to_score) cs)" by simp
  then have srt_cs: "sorted_wrt (\<lambda>p q. pair_score j_to_score p \<ge> pair_score j_to_score q) cs"
    by (simp add: sorted_wrt_map)
  have lcs: "length es = length cs" by (simp add: cs_def)
  have pqd: "distinct pq" and pqs: "set pq = set (psi_frontier v [])"
    unfolding pq_def using psi_frontier_init[OF lv32] by blast+
  from psi_take_entries_frontier[OF lv32 pqd pqs, of n]
  have fr: "\<forall>k < length es. es ! k = pq_top (psi_frontier v (take k es))"
    and fin: "length es < n \<longrightarrow> psi_frontier v es = []"
    unfolding es_def by simp_all
  have each: "cs ! k = ?sw (snd (v ! fst (snd (es ! k))), snd (v ! snd (snd (es ! k))))
       \<and> pair_score j_to_score (cs ! k) = fst (es ! k)
       \<and> es ! k = pq_top (psi_frontier v (take k es))" if "k < length cs" for k
  proof -
    have kl: "k < length es" using that lcs by simp
    then have c: "cs ! k = ?sw (?pr (es ! k))" by (simp add: cs_def)
    have "es ! k \<in> set es" using kl by simp
    then have "pair_score j_to_score (?sw (?pr (es ! k))) = fst (es ! k)" using key by blast
    then show ?thesis using c fr kl by simp
  qed
  then have all: "\<forall>k < length cs.
       cs ! k = ?sw (snd (v ! fst (snd (es ! k))), snd (v ! snd (snd (es ! k))))
       \<and> pair_score j_to_score (cs ! k) = fst (es ! k)
       \<and> es ! k = pq_top (psi_frontier v (take k es))" by blast
  have fin': "length cs < n \<longrightarrow> psi_frontier v es = []" using fin lcs by simp
  show ?thesis
    using best run lt srt_cs lcs all fin' by blast
qed


theorem candidate_pairs_order_witness:
  "candidate_pairs 3 [3, 1, 2] [0, 1, 2] = Inr [(0, 2), (0, 1), (1, 2)]
   \<and> sorted_wrt (\<lambda>p q. pair_score [3, 1, 2] p \<ge> pair_score [3, 1, 2] q) [(0, 2), (0, 1), (1, 2)]
   \<and> pair_score [3, 1, 2] (0, 2) = fst (pq_top (psi_frontier [(3, 0), (2, 2), (1, 1)] []))"
proof -
  have h: "distinct [0, 1, 2 :: nat]" "[0, 1, 2 :: nat] \<noteq> []" "length [0, 1, 2 :: nat] < 2 ^ 32"
      "\<forall>j \<in> set [0, 1, 2 :: nat]. j < length [3, 1, 2 :: real]"
    by simp_all
  from candidate_pairs_order[OF h, of 3]
  obtain v es cs where v: "best_js_of [3, 1, 2] [0, 1, 2] = Inr v"
    and cs: "candidate_pairs 3 [3, 1, 2] [0, 1, 2] = Inr cs"
    and srt: "sorted_wrt (\<lambda>p q. pair_score [3, 1, 2] p \<ge> pair_score [3, 1, 2] q) cs"
    and each: "\<forall>k < length cs. pair_score [3, 1, 2] (cs ! k) = fst (es ! k)
                 \<and> es ! k = pq_top (psi_frontier v (take k es))"
    by blast
  have v': "v = [(3, 0), (2, 2), (1, 1)]" using v best_js_of_example2 by simp
  have cs': "cs = [(0, 2), (0, 1), (1, 2)]" using cs candidate_pairs_example2 by simp
  have "0 < length cs" using cs' by simp
  then have "pair_score [3, 1, 2] (cs ! 0) = fst (es ! 0) \<and> es ! 0 = pq_top (psi_frontier v (take 0 es))"
    using each by blast
  then have "pair_score [3, 1, 2] (0, 2) = fst (pq_top (psi_frontier [(3, 0), (2, 2), (1, 1)] []))"
    using cs' v' by simp
  then show ?thesis using srt cs' candidate_pairs_example2 by simp
qed

text \<open>
  The claim as stated also orders pairs of equal sum by ascending \<open>(j1, j2)\<close>. With
  three features of score 1 the pair \<open>(1, 2)\<close> is yielded before the pair \<open>(0, 2)\<close> of the
  same sum.
\<close>

theorem candidate_pairs_tie_counterexample:
  "candidate_pairs 3 [1, 1, 1] [0, 1, 2] = Inr [(0, 1), (1, 2), (0, 2)]
   \<and> pair_score [1, 1, 1] (1, 2) = pair_score [1, 1, 1] (0, 2)
   \<and> (0 :: nat, 2 :: nat) < (1, 2)"
  using candidate_pairs_example by (simp add: pair_score_def)

section \<open>Feature pruning: termination, dependency order and the score threshold\<close>


section \<open>CsrMatrix (csr\_matrix.h)\<close>

section \<open>Feature pruning (feature\_pruning.cc)\<close>

lemma iter_continue:
  assumes "ComputePruning_iter tie config j_to_score dependees training holdout feature_count s = Inr (True, s')"
  shows "\<exists>top j_dependees n.
      js_queue s \<noteq> [] \<and> top = js_top tie (tops s) (js_queue s)
      \<and> \<not> breaks config feature_count (length (js_queue s)) (fst top)
      \<and> GetRow dependees (snd top) = Inr j_dependees
      \<and> skip_removed (removed_js s) j_dependees (num_removed_children s (snd top)) = Inr n
      \<and> block_or_remove j_to_score training holdout (snd top) j_dependees n
            (s\<lparr>js_queue := remove1 top (js_queue s), tops := tops s + 1,
               num_removed_children := (num_removed_children s)(snd top := n)\<rparr>) = Inr s'"
proof -
  from assms have ne: "js_queue s \<noteq> []"
    by (auto simp: ComputePruning_iter_def split: if_splits)
  define top where "top = js_top tie (tops s) (js_queue s)"
  from assms ne have nb: "\<not> breaks config feature_count (length (js_queue s)) (fst top)"
    by (auto simp: ComputePruning_iter_def Let_def top_def split: if_splits)
  define s1 where "s1 = s\<lparr>js_queue := remove1 top (js_queue s), tops := tops s + 1\<rparr>"
  from assms ne nb have eq: "(case GetRow dependees (snd top) of
                    Inl e \<Rightarrow> Inl e
                  | Inr j_dependees \<Rightarrow>
                      (case skip_removed (removed_js s1) j_dependees (num_removed_children s1 (snd top)) of
                         Inl e \<Rightarrow> Inl e
                       | Inr n \<Rightarrow>
                           (case block_or_remove j_to_score training holdout (snd top) j_dependees n
                                   (s1\<lparr>num_removed_children := (num_removed_children s1)(snd top := n)\<rparr>) of
                              Inl e \<Rightarrow> Inl e
                            | Inr s \<Rightarrow> Inr (True, s)))) = Inr (True, s')"
    unfolding ComputePruning_iter_def Let_def top_def[symmetric] s1_def[symmetric] by simp
  then obtain j_dependees where row: "GetRow dependees (snd top) = Inr j_dependees"
    by (cases "GetRow dependees (snd top)") auto
  with eq obtain n where n: "skip_removed (removed_js s1) j_dependees (num_removed_children s1 (snd top)) = Inr n"
    by (cases "skip_removed (removed_js s1) j_dependees (num_removed_children s1 (snd top))") auto
  with eq row have "block_or_remove j_to_score training holdout (snd top) j_dependees n
       (s1\<lparr>num_removed_children := (num_removed_children s1)(snd top := n)\<rparr>) = Inr s'"
    by (cases "block_or_remove j_to_score training holdout (snd top) j_dependees n
       (s1\<lparr>num_removed_children := (num_removed_children s1)(snd top := n)\<rparr>)") auto
  with ne nb row n show ?thesis
    unfolding s1_def top_def by (intro exI[of _ top] exI[of _ j_dependees] exI[of _ n]) (simp add: top_def)
qed

lemma block_or_remove_cases:
  assumes "block_or_remove j_to_score training holdout j j_dependees n s = Inr s'"
  shows "(n < length j_dependees
            \<and> s' = s\<lparr>triggered_by := tb_push_back (triggered_by s) (j_dependees ! n) j\<rparr>)
         \<or> (\<not> n < length j_dependees \<and> j < length (removed_js s)
            \<and> (\<exists>c q. XjBoolCountOfJ training holdout j = Inr c
                  \<and> push_js j_to_score (tb_get (triggered_by s) j) (js_queue s) = Inr q
                  \<and> s' = s\<lparr>features_removed := (features_removed s + 1) mod 2 ^ 64,
                            removed_js := (removed_js s)[j := True],
                            xjbools_removed := (xjbools_removed s + c) mod 2 ^ 64,
                            js_queue := q,
                            triggered_by := tb_erase (triggered_by s) j\<rparr>))"
  using assms unfolding block_or_remove_def
  by (auto split: if_splits sum.splits)

lemma block_or_remove_fields:
  assumes "block_or_remove j_to_score training holdout j j_dependees n s = Inr s'"
  shows "num_removed_children s' = num_removed_children s \<and> tops s' = tops s
         \<and> length (removed_js s') = length (removed_js s)
         \<and> ((n < length j_dependees \<and> removed_js s' = removed_js s \<and> js_queue s' = js_queue s
               \<and> triggered_by s' = tb_push_back (triggered_by s) (j_dependees ! n) j)
            \<or> (\<not> n < length j_dependees \<and> j < length (removed_js s)
               \<and> removed_js s' = (removed_js s)[j := True]
               \<and> push_js j_to_score (tb_get (triggered_by s) j) (js_queue s) = Inr (js_queue s')
               \<and> triggered_by s' = tb_erase (triggered_by s) j))"
  using block_or_remove_cases[OF assms] by auto

lemma skip_removed_result:
  "skip_removed removed j_dependees n0 = Inr n \<Longrightarrow>
     n0 \<le> n
     \<and> (\<forall>i. n0 \<le> i \<and> i < n \<longrightarrow> i < length j_dependees \<and> j_dependees ! i < length removed
                                  \<and> removed ! (j_dependees ! i))
     \<and> (n < length j_dependees \<longrightarrow> j_dependees ! n < length removed \<and> \<not> removed ! (j_dependees ! n))"
proof (induction removed j_dependees n0 rule: skip_removed.induct)
  case (1 removed j_dependees n0)
  show ?case
  proof (cases "n0 \<ge> length j_dependees \<or> \<not> j_dependees ! n0 < length removed
                 \<or> \<not> removed ! (j_dependees ! n0)")
    case True
    with "1.prems" show ?thesis
      by (subst (asm) skip_removed.simps) (auto split: if_splits)
  next
    case False
    with "1.prems" have rec: "skip_removed removed j_dependees (n0 + 1) = Inr n"
      by (subst (asm) skip_removed.simps) (simp split: if_splits)
    from False have c: "\<not> n0 \<ge> length j_dependees" "\<not> \<not> j_dependees ! n0 < length removed"
        "\<not> \<not> removed ! (j_dependees ! n0)" by auto
    from "1.IH"[OF c rec] have IH: "n0 + 1 \<le> n"
      "\<forall>i. n0 + 1 \<le> i \<and> i < n \<longrightarrow> i < length j_dependees \<and> j_dependees ! i < length removed
                                  \<and> removed ! (j_dependees ! i)"
      "n < length j_dependees \<longrightarrow> j_dependees ! n < length removed \<and> \<not> removed ! (j_dependees ! n)"
      by blast+
    have "\<forall>i. n0 \<le> i \<and> i < n \<longrightarrow> i < length j_dependees \<and> j_dependees ! i < length removed
                                  \<and> removed ! (j_dependees ! i)"
    proof (intro allI impI)
      fix i assume i: "n0 \<le> i \<and> i < n"
      show "i < length j_dependees \<and> j_dependees ! i < length removed \<and> removed ! (j_dependees ! i)"
      proof (cases "i = n0")
        case True
        with False show ?thesis by auto
      next
        case False
        with i have "n0 + 1 \<le> i \<and> i < n" by simp
        with IH(2) show ?thesis by blast
      qed
    qed
    with IH show ?thesis by simp
  qed
qed

lemma push_js_length:
  "push_js j_to_score js q = Inr q' \<Longrightarrow> length q' = length q + length js"
  by (induction js arbitrary: q) (auto split: if_splits)

lemma tb_sum_erase_le: "tb_sum r (tb_erase tb k) \<le> tb_sum r tb"
  by (induction tb) (auto simp: tb_sum_def tb_erase_def)

lemma tb_sum_erase:
  "tb_sum r (tb_erase tb k) + (if k < length r \<and> r ! k then length (tb_get tb k) else 0) \<le> tb_sum r tb"
proof (induction tb)
  case Nil
  then show ?case by (simp add: tb_sum_def tb_erase_def tb_get_def)
next
  case (Cons e tb)
  show ?case
  proof (cases "fst e = k")
    case True
    then have g: "tb_get (e # tb) k = snd e" by (cases e) (simp add: tb_get_def)
    have er: "tb_erase (e # tb) k = tb_erase tb k" using True by (simp add: tb_erase_def)
    have "tb_sum r (e # tb) = (if k < length r \<and> r ! k then length (snd e) else 0) + tb_sum r tb"
      using True by (simp add: tb_sum_def)
    with tb_sum_erase_le[of r tb k] g er show ?thesis by simp
  next
    case False
    then have g: "tb_get (e # tb) k = tb_get tb k" by (cases e) (simp add: tb_get_def)
    have er: "tb_erase (e # tb) k = e # tb_erase tb k" using False by (simp add: tb_erase_def)
    have "tb_sum r (e # tb_erase tb k) + (if k < length r \<and> r ! k then length (tb_get tb k) else 0)
          \<le> tb_sum r (e # tb)"
      using Cons.IH by (simp add: tb_sum_def)
    then show ?thesis unfolding g er .
  qed
qed

lemma tb_sum_push:
  "\<not> (c < length r \<and> r ! c) \<Longrightarrow> tb_sum r (tb_push_back tb c j) \<le> tb_sum r tb"
  using tb_sum_erase_le[of r tb c] by (auto simp: tb_push_back_def tb_sum_def)

lemma unremoved_update:
  "j < length r \<Longrightarrow> \<not> r ! j \<Longrightarrow> Suc (length (filter Not (r[j := True]))) = length (filter Not r)"
proof (induction r arbitrary: j)
  case Nil
  then show ?case by simp
next
  case (Cons b r)
  then show ?case by (cases j) auto
qed

lemma js_top_in: "q \<noteq> [] \<Longrightarrow> js_top tie k q \<in> set q"
proof -
  have "fold (\<lambda>x best. if js_before tie k best x then best else x) xs b \<in> set (b # xs)" for xs b
    by (induction xs arbitrary: b) auto
  then show "q \<noteq> [] \<Longrightarrow> js_top tie k q \<in> set q"
    by (cases q) (simp_all add: js_top_def)
qed

lemma iter_decreases:
  assumes "ComputePruning_iter tie config j_to_score dependees training holdout feature_count s = Inr (True, s')"
  shows "unremoved_count s' < unremoved_count s
         \<or> (unremoved_count s' = unremoved_count s \<and> pending_count s' < pending_count s)"
proof -
  from iter_continue[OF assms] obtain top j_dependees n where
    ne: "js_queue s \<noteq> []" and top: "top = js_top tie (tops s) (js_queue s)"
    and skip: "skip_removed (removed_js s) j_dependees (num_removed_children s (snd top)) = Inr n"
    and bor: "block_or_remove j_to_score training holdout (snd top) j_dependees n
            (s\<lparr>js_queue := remove1 top (js_queue s), tops := tops s + 1,
               num_removed_children := (num_removed_children s)(snd top := n)\<rparr>) = Inr s'"
    by blast
  let ?s1 = "s\<lparr>js_queue := remove1 top (js_queue s), tops := tops s + 1,
               num_removed_children := (num_removed_children s)(snd top := n)\<rparr>"
  let ?j = "snd top"
  let ?r = "removed_js s"
  have tin: "top \<in> set (js_queue s)" unfolding top using ne by (rule js_top_in)
  then have lq: "Suc (length (remove1 top (js_queue s))) = length (js_queue s)"
    by (simp add: length_remove1) (metis length_pos_if_in_set Suc_pred)
  have pend: "pending_count x = length (js_queue x) + tb_sum (removed_js x) (triggered_by x)" for x
    by (simp add: pending_count_def tb_sum_def)
  from block_or_remove_cases[OF bor] show ?thesis
  proof (elim disjE conjE exE)
    assume n: "n < length j_dependees"
      and s': "s' = ?s1\<lparr>triggered_by := tb_push_back (triggered_by ?s1) (j_dependees ! n) ?j\<rparr>"
    from skip_removed_result[OF skip] n
    have "\<not> (j_dependees ! n < length ?r \<and> ?r ! (j_dependees ! n))" by simp
    from tb_sum_push[OF this, of "triggered_by s" ?j]
    have "tb_sum ?r (tb_push_back (triggered_by s) (j_dependees ! n) ?j) \<le> tb_sum ?r (triggered_by s)" .
    with lq have "pending_count s' < pending_count s"
      unfolding pend s' by simp
    moreover have "unremoved_count s' = unremoved_count s"
      by (simp add: s' unremoved_count_def)
    ultimately show ?thesis by simp
  next
    fix c q
    assume j: "?j < length (removed_js ?s1)"
      and q: "push_js j_to_score (tb_get (triggered_by ?s1) ?j) (js_queue ?s1) = Inr q"
      and s': "s' = ?s1\<lparr>features_removed := (features_removed ?s1 + 1) mod 2 ^ 64,
                            removed_js := (removed_js ?s1)[?j := True],
                            xjbools_removed := (xjbools_removed ?s1 + c) mod 2 ^ 64,
                            js_queue := q,
                            triggered_by := tb_erase (triggered_by ?s1) ?j\<rparr>"
    from j have j': "?j < length ?r" by simp
    from push_js_length[OF q]
    have lq': "length q = length (remove1 top (js_queue s)) + length (tb_get (triggered_by s) ?j)"
      by simp
    show ?thesis
    proof (cases "?r ! ?j")
      case False
      from unremoved_update[OF j' False] have "unremoved_count s' < unremoved_count s"
        by (simp add: s' unremoved_count_def)
      then show ?thesis by simp
    next
      case True
      then have same: "?r[?j := True] = ?r" by (metis list_update_id)
      from tb_sum_erase[of ?r "triggered_by s" ?j] True j'
      have "tb_sum ?r (tb_erase (triggered_by s) ?j) + length (tb_get (triggered_by s) ?j)
              \<le> tb_sum ?r (triggered_by s)" by simp
      with lq lq' have "pending_count s' < pending_count s"
        unfolding pend s' by (simp add: same)
      moreover have "unremoved_count s' = unremoved_count s"
        by (simp add: s' unremoved_count_def same)
      ultimately show ?thesis by simp
    qed
  qed
qed

termination ComputePruning_loop
proof (relation "measures [\<lambda>(tie, config, j_to_score, dependees, training, holdout, feature_count, s). unremoved_count s,
                           \<lambda>(tie, config, j_to_score, dependees, training, holdout, feature_count, s). pending_count s]",
       goal_cases)
  case 1
  then show ?case by simp
next
  case (2 tie config j_to_score dependees training holdout feature_count s x go_on s')
  then have "ComputePruning_iter tie config j_to_score dependees training holdout feature_count s = Inr (True, s')"
    by simp
  from iter_decreases[OF this] show ?case by auto
qed

declare ComputePruning_loop.simps [simp del]

lemma iter_break:
  assumes "ComputePruning_iter tie config j_to_score dependees training holdout feature_count s = Inr (False, s')"
  shows "s' = s"
proof (cases "js_queue s = []")
  case True
  with assms show ?thesis by (simp add: ComputePruning_iter_def)
next
  case ne: False
  define top where "top = js_top tie (tops s) (js_queue s)"
  show ?thesis
  proof (cases "breaks config feature_count (length (js_queue s)) (fst top)")
    case True
    with assms ne show ?thesis by (simp add: ComputePruning_iter_def Let_def top_def)
  next
    case False
    define s1 where "s1 = s\<lparr>js_queue := remove1 top (js_queue s), tops := tops s + 1\<rparr>"
    from assms ne False have eq: "(case GetRow dependees (snd top) of
                    Inl e \<Rightarrow> Inl e
                  | Inr j_dependees \<Rightarrow>
                      (case skip_removed (removed_js s1) j_dependees (num_removed_children s1 (snd top)) of
                         Inl e \<Rightarrow> Inl e
                       | Inr n \<Rightarrow>
                           (case block_or_remove j_to_score training holdout (snd top) j_dependees n
                                   (s1\<lparr>num_removed_children := (num_removed_children s1)(snd top := n)\<rparr>) of
                              Inl e \<Rightarrow> Inl e
                            | Inr s \<Rightarrow> Inr (True, s)))) = Inr (False, s')"
      unfolding ComputePruning_iter_def Let_def top_def[symmetric] s1_def[symmetric] by simp
    then have False by (simp split: sum.splits)
    then show ?thesis ..
  qed
qed

lemma ComputePruning_loop_invariant:
  assumes "ComputePruning_loop tie config j_to_score dependees training holdout feature_count s = Inr sf"
    and "P s"
    and "\<And>s s'. P s \<Longrightarrow>
       ComputePruning_iter tie config j_to_score dependees training holdout feature_count s = Inr (True, s')
       \<Longrightarrow> P s'"
  shows "P sf"
  using assms
proof (induction tie config j_to_score dependees training holdout feature_count s
       rule: ComputePruning_loop.induct)
  case (1 tie config j_to_score dependees training holdout feature_count s)
  from "1.prems"(1) obtain go_on s' where
    it: "ComputePruning_iter tie config j_to_score dependees training holdout feature_count s = Inr (go_on, s')"
    by (subst (asm) ComputePruning_loop.simps) (auto split: sum.splits)
  show ?case
  proof (cases go_on)
    case True
    with "1.prems"(1) it
    have rec: "ComputePruning_loop tie config j_to_score dependees training holdout feature_count s' = Inr sf"
      by (subst (asm) ComputePruning_loop.simps) simp
    from it True
    have "ComputePruning_iter tie config j_to_score dependees training holdout feature_count s = Inr (True, s')"
      by simp
    from "1.prems"(3)[OF "1.prems"(2) this] have "P s'" .
    from "1.IH"[OF it refl True rec this "1.prems"(3)] show ?thesis .
  next
    case False
    with "1.prems"(1) it have "sf = s'"
      by (subst (asm) ComputePruning_loop.simps) simp
    with iter_break[of tie config j_to_score dependees training holdout feature_count s s'] it False
      "1.prems"(2)
    show ?thesis by simp
  qed
qed

lemma children_inv_step:
  assumes ch: "children_removed dependees (removed_js s)"
    and pr: "prefix_removed dependees s"
    and it: "ComputePruning_iter tie config j_to_score dependees training holdout feature_count s = Inr (True, s')"
  shows "children_removed dependees (removed_js s') \<and> prefix_removed dependees s'"
proof -
  from iter_continue[OF it] obtain top j_dependees n where
    row: "GetRow dependees (snd top) = Inr j_dependees"
    and skip: "skip_removed (removed_js s) j_dependees (num_removed_children s (snd top)) = Inr n"
    and bor: "block_or_remove j_to_score training holdout (snd top) j_dependees n
            (s\<lparr>js_queue := remove1 top (js_queue s), tops := tops s + 1,
               num_removed_children := (num_removed_children s)(snd top := n)\<rparr>) = Inr s'"
    by blast
  let ?j = "snd top"
  let ?r = "removed_js s"
  let ?n0 = "num_removed_children s ?j"
  from skip_removed_result[OF skip] have
    sk: "\<forall>i. ?n0 \<le> i \<and> i < n \<longrightarrow> i < length j_dependees \<and> j_dependees ! i < length ?r
                                  \<and> ?r ! (j_dependees ! i)"
    by blast
  have below_n: "j_dependees ! i < length ?r \<and> ?r ! (j_dependees ! i)"
    if "i < n" "i < length j_dependees" for i
  proof (cases "i < ?n0")
    case True
    with pr row that show ?thesis unfolding prefix_removed_def by blast
  next
    case False
    with sk that show ?thesis by simp
  qed
  note flds = block_or_remove_fields[OF bor]
  have nrc': "num_removed_children s' = (num_removed_children s)(?j := n)"
    using flds by simp
  have len': "length (removed_js s') = length ?r"
    using flds by simp
  have rem': "removed_js s' = ?r
      \<or> (\<not> n < length j_dependees \<and> ?j < length ?r \<and> removed_js s' = ?r[?j := True])"
    using flds by auto
  have mono: "removed_js s' ! c" if "c < length ?r" "?r ! c" for c
    using rem' that by (auto simp: nth_list_update)
  have pr': "prefix_removed dependees s'"
    unfolding prefix_removed_def
  proof (intro allI impI, elim conjE)
    fix j' row' i
    assume g: "GetRow dependees j' = Inr row'" and i: "i < num_removed_children s' j'" "i < length row'"
    have "row' ! i < length ?r \<and> ?r ! (row' ! i)"
    proof (cases "j' = ?j")
      case True
      with g row have "row' = j_dependees" by simp
      with True i nrc' below_n[of i] show ?thesis by simp
    next
      case False
      with i nrc' have "i < num_removed_children s j'" by simp
      with pr g i show ?thesis unfolding prefix_removed_def by blast
    qed
    with mono len' show "row' ! i < length (removed_js s') \<and> removed_js s' ! (row' ! i)" by simp
  qed
  have ch': "children_removed dependees (removed_js s')"
    unfolding children_removed_def
  proof (intro allI impI)
    fix j' assume j': "j' < length (removed_js s')" and rj: "removed_js s' ! j'"
    show "\<exists>row'. GetRow dependees j' = Inr row'
             \<and> (\<forall>c \<in> set row'. c < length (removed_js s') \<and> removed_js s' ! c)"
    proof (cases "?r ! j'")
      case True
      with ch j' len' obtain row' where "GetRow dependees j' = Inr row'"
        "\<forall>c \<in> set row'. c < length ?r \<and> ?r ! c"
        unfolding children_removed_def by force
      with mono len' show ?thesis by auto
    next
      case False
      from rem' False rj j' len' have jj: "j' = ?j" and full: "\<not> n < length j_dependees"
        by (auto simp: nth_list_update split: if_splits)
      have "\<forall>c \<in> set j_dependees. c < length ?r \<and> ?r ! c"
      proof
        fix c assume "c \<in> set j_dependees"
        then obtain i where "i < length j_dependees" "c = j_dependees ! i"
          by (auto simp: in_set_conv_nth)
        with full below_n[of i] show "c < length ?r \<and> ?r ! c" by simp
      qed
      with mono len' row jj show ?thesis by auto
    qed
  qed
  from ch' pr' show ?thesis ..
qed

lemma push_js_scored:
  "queue_scored j_to_score q0 \<Longrightarrow> push_js j_to_score js q0 = Inr q \<Longrightarrow> queue_scored j_to_score q"
proof (induction js arbitrary: q0)
  case Nil
  then show ?case by simp
next
  case (Cons j js)
  from Cons.prems(2) have j: "j < length j_to_score"
    and rec: "push_js j_to_score js (q0 @ [(j_to_score ! j, j)]) = Inr q"
    by (simp_all split: if_splits)
  from Cons.prems(1) j have "queue_scored j_to_score (q0 @ [(j_to_score ! j, j)])"
    by (simp add: queue_scored_def)
  from Cons.IH[OF this rec] show ?case .
qed

lemma not_breaks_threshold:
  assumes "\<not> breaks config feature_count queue_size score" "score_threshold config = Some t"
  shows "\<not> less_inf t score"
proof
  assume "less_inf t score"
  with assms(2) have "breaks config feature_count queue_size score"
    by (simp add: breaks_def)
  with assms(1) show False ..
qed

lemma threshold_inv_step:
  assumes qs: "queue_scored j_to_score (js_queue s)"
    and rb: "removed_below t j_to_score (removed_js s)"
    and th: "score_threshold config = Some t"
    and it: "ComputePruning_iter tie config j_to_score dependees training holdout feature_count s = Inr (True, s')"
  shows "queue_scored j_to_score (js_queue s') \<and> removed_below t j_to_score (removed_js s')"
proof -
  from iter_continue[OF it] obtain top j_dependees n where
    ne: "js_queue s \<noteq> []" and top: "top = js_top tie (tops s) (js_queue s)"
    and nb: "\<not> breaks config feature_count (length (js_queue s)) (fst top)"
    and bor: "block_or_remove j_to_score training holdout (snd top) j_dependees n
            (s\<lparr>js_queue := remove1 top (js_queue s), tops := tops s + 1,
               num_removed_children := (num_removed_children s)(snd top := n)\<rparr>) = Inr s'"
    by blast
  have tin: "top \<in> set (js_queue s)" unfolding top using ne by (rule js_top_in)
  with qs have tsc: "snd top < length j_to_score" "fst top = j_to_score ! snd top"
    by (auto simp: queue_scored_def)
  from not_breaks_threshold[OF nb th] tsc have ok: "\<not> less_inf t (j_to_score ! snd top)" by simp
  have qs1: "queue_scored j_to_score (remove1 top (js_queue s))"
    using qs set_remove1_subset[of top "js_queue s"] by (auto simp: queue_scored_def)
  from block_or_remove_fields[OF bor]
  consider (block) "removed_js s' = removed_js s" "js_queue s' = remove1 top (js_queue s)"
    | (remove) "removed_js s' = (removed_js s)[snd top := True]"
        "push_js j_to_score (tb_get (triggered_by s) (snd top)) (remove1 top (js_queue s)) = Inr (js_queue s')"
    by auto
  then show ?thesis
  proof cases
    case block
    with qs1 rb show ?thesis by simp
  next
    case remove
    from push_js_scored[OF qs1 remove(2)] have q': "queue_scored j_to_score (js_queue s')" .
    have "removed_below t j_to_score ((removed_js s)[snd top := True])"
      unfolding removed_below_def
    proof (intro allI impI)
      fix j assume j: "j < length ((removed_js s)[snd top := True])" "(removed_js s)[snd top := True] ! j"
      show "j < length j_to_score \<and> \<not> less_inf t (j_to_score ! j)"
      proof (cases "j = snd top")
        case True
        with ok tsc show ?thesis by simp
      next
        case False
        with j have "j < length (removed_js s)" "removed_js s ! j" by simp_all
        with rb show ?thesis unfolding removed_below_def by blast
      qed
    qed
    with q' remove(1) show ?thesis by simp
  qed
qed

lemma ComputePruning_result:
  assumes "ComputePruning tie config j_to_score all_js dependees training holdout model_size = Inr (removed, lg)"
  obtains q sf where "push_js j_to_score all_js [] = Inr q"
    "ComputePruning_loop tie config j_to_score dependees training holdout (length q)
        \<lparr>js_queue = q, triggered_by = [], num_removed_children = (\<lambda>j. 0),
         removed_js = replicate model_size False, features_removed = 0,
         xjbools_removed = 0, tops = 0\<rparr> = Inr sf"
    "removed = removed_js sf"
proof -
  obtain q where q: "push_js j_to_score all_js [] = Inr q"
    using assms unfolding ComputePruning_def
    by (cases "push_js j_to_score all_js []") simp_all
  let ?s0 = "\<lparr>js_queue = q, triggered_by = [], num_removed_children = (\<lambda>j. 0),
         removed_js = replicate model_size False, features_removed = 0,
         xjbools_removed = 0, tops = 0\<rparr>"
  obtain sf where sf: "ComputePruning_loop tie config j_to_score dependees training holdout (length q) ?s0 = Inr sf"
    using assms q unfolding ComputePruning_def
    by (cases "ComputePruning_loop tie config j_to_score dependees training holdout (length q) ?s0") simp_all
  obtain bc where bc: "count_blocked training holdout (triggered_by sf) (0, 0) = Inr bc"
    using assms q sf unfolding ComputePruning_def
    by (cases "count_blocked training holdout (triggered_by sf) (0, 0)") simp_all
  have "removed = removed_js sf"
    using assms q sf bc unfolding ComputePruning_def
    by (cases bc) simp
  with q sf that show thesis by blast
qed

text \<open>
  Claim C5. In the removed set that \<open>ComputePruning\<close> returns, every child of a removed
  J in the dependees graph is removed as well: no J is removed while one of its children
  survives.
\<close>

theorem ComputePruning_children_removed:
  assumes "ComputePruning tie config j_to_score all_js dependees training holdout model_size
             = Inr (removed, lg)"
  shows "\<forall>j < length removed. removed ! j \<longrightarrow>
           (\<exists>j_dependees. GetRow dependees j = Inr j_dependees
              \<and> (\<forall>c \<in> set j_dependees. c < length removed \<and> removed ! c))"
proof -
  from ComputePruning_result[OF assms] obtain q sf where
    loop: "ComputePruning_loop tie config j_to_score dependees training holdout (length q)
        \<lparr>js_queue = q, triggered_by = [], num_removed_children = (\<lambda>j. 0),
         removed_js = replicate model_size False, features_removed = 0,
         xjbools_removed = 0, tops = 0\<rparr> = Inr sf"
    and r: "removed = removed_js sf"
    by blast
  let ?P = "\<lambda>s. children_removed dependees (removed_js s) \<and> prefix_removed dependees s"
  have "?P sf"
  proof (rule ComputePruning_loop_invariant[OF loop, of ?P])
    show "?P \<lparr>js_queue = q, triggered_by = [], num_removed_children = (\<lambda>j. 0),
         removed_js = replicate model_size False, features_removed = 0,
         xjbools_removed = 0, tops = 0\<rparr>"
      by (simp add: children_removed_def prefix_removed_def)
  next
    fix s s'
    assume "?P s"
      "ComputePruning_iter tie config j_to_score dependees training holdout (length q) s = Inr (True, s')"
    then show "?P s'" using children_inv_step by blast
  qed
  then show ?thesis unfolding r children_removed_def by blast
qed

text \<open>
  Claim C7, as amended. With a \<open>score_threshold\<close> the loop stops as soon as the least
  remaining score is greater than the threshold, and no J whose score is greater than
  the threshold is removed. (A J whose score equals the threshold is not protected.)
\<close>

theorem ComputePruning_threshold:
  assumes th: "score_threshold config = Some t"
  shows "(\<forall>s :: PruneState. js_queue s \<noteq> [] \<and> less_inf t (fst (js_top tie (tops s) (js_queue s)))
            \<longrightarrow> ComputePruning_iter tie config j_to_score dependees training holdout feature_count s
                  = Inr (False, s))
         \<and> (\<forall>removed lg.
               ComputePruning tie config j_to_score all_js dependees training holdout model_size
                 = Inr (removed, lg)
               \<longrightarrow> (\<forall>j < length removed. removed ! j
                      \<longrightarrow> j < length j_to_score \<and> \<not> less_inf t (j_to_score ! j)))"
proof (rule conjI)
  show "\<forall>s :: PruneState. js_queue s \<noteq> [] \<and> less_inf t (fst (js_top tie (tops s) (js_queue s)))
            \<longrightarrow> ComputePruning_iter tie config j_to_score dependees training holdout feature_count s
                  = Inr (False, s)"
  proof (intro allI impI)
    fix s :: PruneState
    assume a: "js_queue s \<noteq> [] \<and> less_inf t (fst (js_top tie (tops s) (js_queue s)))"
    then have "breaks config feature_count (length (js_queue s)) (fst (js_top tie (tops s) (js_queue s)))"
      using th by (simp add: breaks_def)
    with a show "ComputePruning_iter tie config j_to_score dependees training holdout feature_count s
                  = Inr (False, s)"
      by (simp add: ComputePruning_iter_def Let_def)
  qed
next
  show "\<forall>removed lg.
               ComputePruning tie config j_to_score all_js dependees training holdout model_size
                 = Inr (removed, lg)
               \<longrightarrow> (\<forall>j < length removed. removed ! j
                      \<longrightarrow> j < length j_to_score \<and> \<not> less_inf t (j_to_score ! j))"
  proof (intro allI impI)
    fix removed lg j
    assume run: "ComputePruning tie config j_to_score all_js dependees training holdout model_size
                 = Inr (removed, lg)"
      and j: "j < length removed" "removed ! j"
    from ComputePruning_result[OF run] obtain q sf where
      q: "push_js j_to_score all_js [] = Inr q"
      and loop: "ComputePruning_loop tie config j_to_score dependees training holdout (length q)
        \<lparr>js_queue = q, triggered_by = [], num_removed_children = (\<lambda>j. 0),
         removed_js = replicate model_size False, features_removed = 0,
         xjbools_removed = 0, tops = 0\<rparr> = Inr sf"
      and r: "removed = removed_js sf"
      by blast
    let ?P = "\<lambda>s. queue_scored j_to_score (js_queue s) \<and> removed_below t j_to_score (removed_js s)"
    have "?P sf"
    proof (rule ComputePruning_loop_invariant[OF loop, of ?P])
      have "queue_scored j_to_score []" by (simp add: queue_scored_def)
      from push_js_scored[OF this q]
      show "?P \<lparr>js_queue = q, triggered_by = [], num_removed_children = (\<lambda>j. 0),
         removed_js = replicate model_size False, features_removed = 0,
         xjbools_removed = 0, tops = 0\<rparr>"
        by (simp add: removed_below_def)
    next
      fix s s'
      assume "?P s"
        "ComputePruning_iter tie config j_to_score dependees training holdout (length q) s = Inr (True, s')"
      then show "?P s'" using threshold_inv_step[OF _ _ th] by blast
    qed
    with j show "j < length j_to_score \<and> \<not> less_inf t (j_to_score ! j)"
      unfolding r removed_below_def by blast
  qed
qed

lemma ex_rows:
  "GetRow ex_dependees 0 = Inr [2]" "GetRow ex_dependees 1 = Inr [2]" "GetRow ex_dependees 2 = Inr []"
  by (simp_all add: GetRow_def ex_dependees_def)

lemma ex_xj: "XjBoolCountOfJ ex_training ex_holdout 0 = Inr 1"
   "XjBoolCountOfJ ex_training ex_holdout 2 = Inr 1"
  by (simp_all add: XjBoolCountOfJ_def GetRowCountWithJPresent_def Negative_def Positive_def ex_training_def ex_holdout_def)

lemmas ex_iter_simps =
  ex_tie_def ComputePruning_iter_def js_top_def js_before_def breaks_def ex_pruning_config_def ex_rows ex_xj
  block_or_remove_def tb_get_def tb_erase_def tb_push_back_def Let_def

lemma ComputePruning_loop_example:
  "\<exists>sf. ComputePruning_loop ex_tie ex_pruning_config [Finite 1, Finite 3, Finite 2]
           ex_dependees ex_training ex_holdout 3
           \<lparr>js_queue = [(Finite 1, 0), (Finite 3, 1), (Finite 2, 2)], triggered_by = [],
            num_removed_children = (\<lambda>j. 0), removed_js = [False, False, False],
            features_removed = 0, xjbools_removed = 0, tops = 0\<rparr> = Inr sf
      \<and> removed_js sf = [True, False, True] \<and> triggered_by sf = []
      \<and> features_removed sf = 2 \<and> xjbools_removed sf = 2"
  by (simp add: ComputePruning_loop.simps ex_iter_simps)

lemma ComputePruning_example:
  "ComputePruning ex_tie ex_pruning_config [Finite 1, Finite 3, Finite 2] [0, 1, 2]
      ex_dependees ex_training ex_holdout 3
   = Inr ([True, False, True],
          \<lparr>log_blocked_features = 0, log_blocked_xjbools = 0, log_features_removed = 2,
           log_xjbools_count = 1, log_xjbools_removed = 2\<rparr>)"
proof -
  from ComputePruning_loop_example obtain sf where
    "ComputePruning_loop ex_tie ex_pruning_config [Finite 1, Finite 3, Finite 2]
           ex_dependees ex_training ex_holdout 3
           \<lparr>js_queue = [(Finite 1, 0), (Finite 3, 1), (Finite 2, 2)], triggered_by = [],
            num_removed_children = (\<lambda>j. 0), removed_js = [False, False, False],
            features_removed = 0, xjbools_removed = 0, tops = 0\<rparr> = Inr sf"
    "removed_js sf = [True, False, True]" "triggered_by sf = []"
    "features_removed sf = 2" "xjbools_removed sf = 2"
    by blast
  moreover have "replicate 3 False = [False, False, False]" by (simp add: numeral_3_eq_3)
  moreover have "MaterializedXjBoolCount ex_training ex_holdout = 3"
    by (simp add: MaterializedXjBoolCount_def Stats_MaterializedXjBoolCount_def ex_training_def ex_holdout_def)
  ultimately show ?thesis
    by (simp add: ComputePruning_def numeral_3_eq_3)
qed

theorem ComputePruning_children_removed_witness:
  "ComputePruning ex_tie ex_pruning_config [Finite 1, Finite 3, Finite 2] [0, 1, 2]
      ex_dependees ex_training ex_holdout 3
   = Inr ([True, False, True],
          \<lparr>log_blocked_features = 0, log_blocked_xjbools = 0, log_features_removed = 2,
           log_xjbools_count = 1, log_xjbools_removed = 2\<rparr>)
   \<and> [True, False, True] ! 0
   \<and> GetRow ex_dependees 0 = Inr [2]
   \<and> [True, False, True] ! 2"
proof -
  from ComputePruning_children_removed[OF ComputePruning_example]
  have "[True, False, True] ! 0 \<longrightarrow>
      (\<exists>j_dependees. GetRow ex_dependees 0 = Inr j_dependees
          \<and> (\<forall>c \<in> set j_dependees. c < length [True, False, True] \<and> [True, False, True] ! c))"
    by simp
  with ComputePruning_example show ?thesis by (simp add: ex_rows)
qed

theorem ComputePruning_threshold_witness:
  "score_threshold ex_pruning_config = Some (Finite 2)
   \<and> ComputePruning ex_tie ex_pruning_config [Finite 1, Finite 3, Finite 2] [0, 1, 2]
        ex_dependees ex_training ex_holdout 3
      = Inr ([True, False, True],
          \<lparr>log_blocked_features = 0, log_blocked_xjbools = 0, log_features_removed = 2,
           log_xjbools_count = 1, log_xjbools_removed = 2\<rparr>)
   \<and> \<not> less_inf (Finite 2) ([Finite 1, Finite 3, Finite 2] ! 0)
   \<and> \<not> less_inf (Finite 2) ([Finite 1, Finite 3, Finite 2] ! 2)"
proof -
  have th: "score_threshold ex_pruning_config = Some (Finite 2)"
    by (simp add: ex_pruning_config_def)
  from ComputePruning_threshold[OF th, of ex_tie "[Finite 1, Finite 3, Finite 2]" ex_dependees
      ex_training ex_holdout 3 "[0, 1, 2]" 3]
  have "\<forall>j < length [True, False, True]. [True, False, True] ! j
          \<longrightarrow> j < length [Finite 1, Finite 3, Finite 2]
              \<and> \<not> less_inf (Finite 2) ([Finite 1, Finite 3, Finite 2] ! j)"
    using ComputePruning_example by blast
  then have "\<not> less_inf (Finite 2) ([Finite 1, Finite 3, Finite 2] ! 0)
           \<and> \<not> less_inf (Finite 2) ([Finite 1, Finite 3, Finite 2] ! 2)"
    by simp
  with th ComputePruning_example show ?thesis by simp
qed

text \<open>
  The claim as stated stops the loop at a score equal to the threshold. In the run
  below J 2 has the score 2 of the threshold and is removed; the loop stops at J 1, whose
  score 3 is greater.
\<close>

theorem ComputePruning_threshold_counterexample:
  "score_threshold ex_pruning_config = Some (Finite 2)
   \<and> [Finite 1, Finite 3, Finite 2] ! 2 = Finite 2
   \<and> ComputePruning ex_tie ex_pruning_config [Finite 1, Finite 3, Finite 2] [0, 1, 2]
          ex_dependees ex_training ex_holdout 3
       = Inr ([True, False, True],
          \<lparr>log_blocked_features = 0, log_blocked_xjbools = 0, log_features_removed = 2,
           log_xjbools_count = 1, log_xjbools_removed = 2\<rparr>)
   \<and> [True, False, True] ! 2"
  using ComputePruning_example by (simp add: ex_pruning_config_def)


section \<open>Row extension\<close>

lemma ex_product_dependees_rows:
  "GetRow ex_product_dependees 0 = Inr [2]" "GetRow ex_product_dependees 1 = Inr [2]"
  "GetRow ex_product_dependees 2 = Inr []"
  by (simp_all add: GetRow_def ex_product_dependees_def)

lemma ExtendSparseBool_loop_end:
  "\<not> i < length row \<Longrightarrow> ExtendSparseBool_loop m i d row cpu = Some (Inr (row, cpu))"
  by (subst ExtendSparseBool_loop.simps) simp

lemma ExtendSparseBool_loop_step:
  assumes "i < length row" "GetRow m (row ! i) = Inr children"
    and "fold add_child children (d, row, cpu) = (d', row', cpu')"
    and "i' = (i + 1) mod 2 ^ 32"
  shows "ExtendSparseBool_loop m i d row cpu = ExtendSparseBool_loop m i' d' row' cpu'"
  by (subst ExtendSparseBool_loop.simps) (simp add: assms)

lemma add_child_first: "d c = 0 \<Longrightarrow> add_child c (d, row, cpu) = (d(c := 1), row, (cpu + 1) mod 2 ^ 64)"
  by (simp add: add_child_def)

lemma add_child_second:
  "d c = 1 \<Longrightarrow> add_child c (d, row, cpu) = (d(c := 2), row @ [c], (cpu + 1) mod 2 ^ 64)"
  by (simp add: add_child_def) (simp add: numeral_2_eq_2)

text \<open>
  A row with both factors is extended by the product, a row with one factor is not.
\<close>

lemma ExtendSparseBool_both_factors:
  "ExtendSparseBool (Some ex_product_dependees) [0, 1] 0 = Some (Inr ([0, 1, 2], 2))"
proof -
  have 1: "ExtendSparseBool_loop ex_product_dependees 0 (\<lambda>j. 0) [0, 1] 0
      = ExtendSparseBool_loop ex_product_dependees 1 ((\<lambda>j. 0)(2 := 1)) [0, 1] 1"
    by (rule ExtendSparseBool_loop_step[where children = "[2]"])
       (simp_all add: ex_product_dependees_rows add_child_first)
  have 2: "ExtendSparseBool_loop ex_product_dependees 1 ((\<lambda>j. 0)(2 := 1)) [0, 1] 1
      = ExtendSparseBool_loop ex_product_dependees 2 (((\<lambda>j. 0)(2 := 1))(2 := 2)) [0, 1, 2] 2"
    by (rule ExtendSparseBool_loop_step[where children = "[2]"])
       (simp_all add: ex_product_dependees_rows[unfolded One_nat_def] add_child_second del: fun_upd_upd)
  have 3: "ExtendSparseBool_loop ex_product_dependees 2 (((\<lambda>j. 0)(2 := 1))(2 := 2)) [0, 1, 2] 2
      = ExtendSparseBool_loop ex_product_dependees 3 (((\<lambda>j. 0)(2 := 1))(2 := 2)) [0, 1, 2] 2"
    by (rule ExtendSparseBool_loop_step[where children = "[]"])
       (simp_all add: ex_product_dependees_rows del: fun_upd_upd)
  show ?thesis
    unfolding ExtendSparseBool_def option.case 1 2 3 by (rule ExtendSparseBool_loop_end) simp
qed

lemma ExtendSparseBool_one_factor:
  "ExtendSparseBool (Some ex_product_dependees) [0] 0 = Some (Inr ([0], 1))"
proof -
  have 1: "ExtendSparseBool_loop ex_product_dependees 0 (\<lambda>j. 0) [0] 0
      = ExtendSparseBool_loop ex_product_dependees 1 ((\<lambda>j. 0)(2 := 1)) [0] 1"
    by (rule ExtendSparseBool_loop_step[where children = "[2]"])
       (simp_all add: ex_product_dependees_rows add_child_first)
  show ?thesis
    unfolding ExtendSparseBool_def option.case 1 by (rule ExtendSparseBool_loop_end) simp
qed

text \<open>
  Claim C2. A row in which the feature J 0 is observed twice (the reader keeps
  duplicates unless \<open>remove_duplicate_features_in_each_row\<close> is set) is extended by the
  product J 2 of the pair \<open>(0, 1)\<close>, although its factor J 1 is not in the row: the
  counter of J 2 reaches 2 on the second occurrence of J 0.
\<close>

theorem ExtendSparseBool_duplicate_feature:
  "ExtendSparseBool (Some ex_product_dependees) [0, 0] 0 = Some (Inr ([0, 0, 2], 2))
   \<and> GetRow ex_product_dependees 0 = Inr [2] \<and> GetRow ex_product_dependees 1 = Inr [2]
   \<and> 2 \<in> set [0, 0, 2 :: nat] \<and> 1 \<notin> set [0, 0, 2 :: nat]"
proof -
  have 1: "ExtendSparseBool_loop ex_product_dependees 0 (\<lambda>j. 0) [0, 0] 0
      = ExtendSparseBool_loop ex_product_dependees 1 ((\<lambda>j. 0)(2 := 1)) [0, 0] 1"
    by (rule ExtendSparseBool_loop_step[where children = "[2]"])
       (simp_all add: ex_product_dependees_rows add_child_first)
  have 2: "ExtendSparseBool_loop ex_product_dependees 1 ((\<lambda>j. 0)(2 := 1)) [0, 0] 1
      = ExtendSparseBool_loop ex_product_dependees 2 (((\<lambda>j. 0)(2 := 1))(2 := 2)) [0, 0, 2] 2"
    by (rule ExtendSparseBool_loop_step[where children = "[2]"])
       (simp_all add: ex_product_dependees_rows add_child_second del: fun_upd_upd)
  have 3: "ExtendSparseBool_loop ex_product_dependees 2 (((\<lambda>j. 0)(2 := 1))(2 := 2)) [0, 0, 2] 2
      = ExtendSparseBool_loop ex_product_dependees 3 (((\<lambda>j. 0)(2 := 1))(2 := 2)) [0, 0, 2] 2"
    by (rule ExtendSparseBool_loop_step[where children = "[]"])
       (simp_all add: ex_product_dependees_rows del: fun_upd_upd)
  have "ExtendSparseBool (Some ex_product_dependees) [0, 0] 0 = Some (Inr ([0, 0, 2], 2))"
    unfolding ExtendSparseBool_def option.case 1 2 3 by (rule ExtendSparseBool_loop_end) simp
  then show ?thesis using ex_product_dependees_rows by simp
qed

end
